theory Spec2Isabelle
  imports Main "HOL-Library.Signed_Division" "HOL-Library.Sublist"
begin

section \<open>The prime sieve of user/primes.c as a chain of processes\<close>

text \<open>
  The program is a chain of processes joined by pipes.  The driver (\<open>main\<close>) creates a
  pipe, forks the first stage and feeds the numbers 2..35 into the pipe
  (\<open>feed_numbers\<close>).  A stage (\<open>sieve\<close>) prints the first number it reads, its prime;
  it reads on until it meets a number that is not a multiple of its prime, and only
  then creates a pipe and forks the next stage, to which it forwards that number and
  every later one that is not a multiple of its prime.  At end of file it closes its
  descriptors, waits for its child and exits.

  A process is modelled by its trace: the system calls it performs, in program order,
  each with what it returned.  The program does not decide what a call returns.  The
  outcomes of \<open>pipe\<close> and \<open>fork\<close> are taken from a \<open>world\<close>; what \<open>read\<close> and \<open>write\<close>
  return follows from the pipe: its reader gets the values written to it, in order,
  then end of file, and a write fails once the reader has closed its end.  The traces
  of a run are computed along the chain: a stage is run on everything its predecessor
  offers, and what it takes decides which writes of the predecessor succeed.

  The traces say what every call returned, not when it could return.  The last part of
  the model is the kernel at run time: the processes with their descriptors, the pipes,
  and the rule that tells when a call returns.  The traces of a run are performed under
  it in whatever order it allows; a process that waits for ever shows there as a state
  in which its call never returns.
\<close>

subsection \<open>Events\<close>

type_synonym fd = int

datatype fork_result = Failed | Parent | Child

text \<open>
  \<open>Read fd (Some v)\<close>: \<open>read(fd, &v, sizeof v)\<close> returned \<open>sizeof v\<close>;
  \<open>Read fd None\<close>: it returned anything else (end of file).
  \<open>Write fd v ok\<close>: \<open>write(fd, &v, sizeof v)\<close>, with \<open>ok\<close> iff it returned \<open>sizeof v\<close>.
  \<open>Printf s\<close>: the line \<open>s\<close> printed on standard output; \<open>Fprintf fd s\<close>: the line \<open>s\<close>
  printed on descriptor \<open>fd\<close> (the newline that ends the line is not kept).
  \<open>Pipe r\<close>: \<open>pipe\<close> returned a negative number (\<open>None\<close>) or the read and the write
  end.  \<open>Fork r\<close>: \<open>fork\<close> returned a negative number (\<open>Failed\<close>), a positive one
  (\<open>Parent\<close>) or zero (\<open>Child\<close>, the first event of the new process).
  \<open>Exit s\<close>: \<open>exit(s)\<close>, the last event of a process.
  The values are C \<open>int\<close>s; the program only compares them and takes remainders, and
  counts from 2 to 36, so that no operation overflows and \<open>int\<close> stands for them.
\<close>

datatype event =
    Read fd "int option"
  | Write fd int bool
  | Printf string
  | Fprintf fd string
  | Pipe "(fd \<times> fd) option"
  | Fork fork_result
  | Close fd
  | Wait
  | Exit int

subsection \<open>The kernel\<close>

text \<open>
  Modelled from the spec: the kernel (its pipes, \<open>fork\<close>, \<open>wait\<close>) is not among the
  sources.  The spec's channel keeps the order of the values, gives end of stream to a
  receive once the write end is closed and nothing is pending, makes a send to a closed
  read end an error, and lets a send wait for the receiver or, if buffered, for room.

  Processes are numbered along the chain: 0 is the driver, \<open>k + 1\<close> the process forked
  by process \<open>k\<close>.  \<open>pipe_res w k\<close> is what \<open>pipe\<close> gives process \<open>k\<close>, \<open>fork_ok w k\<close>
  tells whether its \<open>fork\<close> succeeds, and \<open>slack w k\<close> is the number of values that the
  pipe written by process \<open>k\<close> still accepts after the last value its reader took, when
  the reader closes its end before end of file: 0 when a send waits for the receiver,
  more when the pipe has a buffer and the writer was ahead.
\<close>

record world =
  pipe_res :: "nat \<Rightarrow> (fd \<times> fd) option"
  fork_ok :: "nat \<Rightarrow> bool"
  slack :: "nat \<Rightarrow> nat"

text \<open>
  The writer's view of its pipe: \<open>None\<close> when the reader stays until end of file,
  \<open>Some n\<close> when exactly \<open>n\<close> more writes succeed before the read end is closed.
\<close>

type_synonym room = "nat option"

fun write_ok :: "room \<Rightarrow> bool" where
  "write_ok None = True"
| "write_ok (Some 0) = False"
| "write_ok (Some (Suc n)) = True"

fun after_write :: "room \<Rightarrow> room" where
  "after_write None = None"
| "after_write (Some n) = Some (n - 1)"

subsection \<open>Reading a trace\<close>

fun reads :: "event list \<Rightarrow> int list" where
  "reads [] = []"
| "reads (Read f (Some v) # es) = v # reads es"
| "reads (e # es) = reads es"

fun saw_eof :: "event list \<Rightarrow> bool" where
  "saw_eof [] = False"
| "saw_eof (Read f None # es) = True"
| "saw_eof (e # es) = saw_eof es"

fun writes :: "event list \<Rightarrow> int list" where
  "writes [] = []"
| "writes (Write f v True # es) = v # writes es"
| "writes (e # es) = writes es"

fun prints :: "event list \<Rightarrow> string list" where
  "prints [] = []"
| "prints (Printf s # es) = s # prints es"
| "prints (e # es) = prints es"

fun errors :: "event list \<Rightarrow> string list" where
  "errors [] = []"
| "errors (Fprintf f s # es) = s # errors es"
| "errors (e # es) = errors es"

text \<open>The status a process exits with: its last event, when that is an \<open>exit\<close>.\<close>

fun exit_status :: "event list \<Rightarrow> int option" where
  "exit_status [] = None"
| "exit_status [Exit s] = Some s"
| "exit_status [e] = None"
| "exit_status (e # es) = exit_status es"

text \<open>
  What the first \<open>read\<close> of a process returned: \<open>Some None\<close> when it met end of file.
\<close>

fun first_read :: "event list \<Rightarrow> int option option" where
  "first_read [] = None"
| "first_read (Read f v # es) = Some v"
| "first_read (e # es) = first_read es"

text \<open>
  The room the writer of a pipe has, from the trace of the reader run on everything the
  writer offers: no bound if the reader met end of file, otherwise the number of values
  the reader took and the slack of the pipe.
\<close>

definition room_of :: "nat \<Rightarrow> event list \<Rightarrow> room" where
  "room_of sl reader = (if saw_eof reader then None else Some (length (reads reader) + sl))"

subsection \<open>The line printed for a prime\<close>

text \<open>
  Modelled from the spec: \<open>printf\<close> itself is not among the sources.  The call is
  \<open>printf\<close> with the format \<open>prime %d\<close> and a newline, and the spec gives the line as
  \<open>prime <value>\<close>; \<open>%d\<close> prints the value in decimal, with a minus sign when it is
  negative.
\<close>

definition digit :: "nat \<Rightarrow> char" where
  "digit d = ''0123456789'' ! d"

function decimal :: "nat \<Rightarrow> string" where
  "decimal n = (if n < 10 then [digit n] else decimal (n div 10) @ [digit (n mod 10)])"
  by pat_completeness auto
termination
  by (relation "measure id") auto

declare decimal.simps [simp del]

definition fmt_d :: "int \<Rightarrow> string" where
  "fmt_d i = (if i < 0 then CHR ''-'' # decimal (nat (- i)) else decimal (nat i))"

definition prime_line :: "int \<Rightarrow> string" where
  "prime_line p = ''prime '' @ fmt_d p"

subsection \<open>feed_numbers\<close>

text \<open>
  The loop \<open>for (int i = 2; i <= 35; i++)\<close>, from the value \<open>i\<close> of its counter, writing
  to a pipe with room \<open>rm\<close>.  A failed write is reported and ends the process with
  \<open>exit(1)\<close>; otherwise the function returns.
\<close>

function feed_from :: "room \<Rightarrow> fd \<Rightarrow> int \<Rightarrow> event list" where
  "feed_from rm wfd i =
     (if i \<le> 35 then
        (if write_ok rm then Write wfd i True # feed_from (after_write rm) wfd (i + 1)
         else [Write wfd i False, Fprintf 2 ''writer: write error'', Exit 1])
      else [])"
  by pat_completeness auto
termination
  by (relation "measure (\<lambda>(rm, wfd, i). nat (36 - i))") auto

declare feed_from.simps [simp del]

definition feed_numbers :: "room \<Rightarrow> fd \<Rightarrow> event list" where
  "feed_numbers rm wfd = feed_from rm wfd 2"

subsection \<open>sieve\<close>

text \<open>
  The first loop of \<open>sieve\<close>, on the values \<open>xs\<close> still to come: read until a number
  that is not a multiple of \<open>p\<close>.  The result is the reads made and, when \<open>have_next\<close>
  is set, \<open>first_nonmul\<close> with the input not yet read.  C's \<open>%\<close> truncates towards
  zero: it is \<open>smod\<close>.  Where C leaves \<open>%\<close> undefined, for a divisor 0 and for the
  least \<open>int\<close> divided by -1, \<open>smod\<close> gives what the remainder instruction of the
  RISC-V machine of xv6 gives; no run of \<open>main\<close> comes there, since all its values are
  among 2..35, and what is stated of \<open>sieve\<close> on other inputs is stated for positive
  values.
\<close>

fun pre_read :: "fd \<Rightarrow> int \<Rightarrow> int list \<Rightarrow> event list \<times> (int \<times> int list) option" where
  "pre_read leftfd p [] = ([Read leftfd None], None)"
| "pre_read leftfd p (x # xs) =
     (if x smod p \<noteq> 0 then ([Read leftfd (Some x)], Some (x, xs))
      else (case pre_read leftfd p xs of (evs, r) \<Rightarrow> (Read leftfd (Some x) # evs, r)))"

text \<open>
  The second loop: forward every number that is not a multiple of \<open>p\<close>; a failed write
  is reported and leaves the loop.
\<close>

fun forward :: "room \<Rightarrow> fd \<Rightarrow> fd \<Rightarrow> int \<Rightarrow> int list \<Rightarrow> event list" where
  "forward rm leftfd wfd p [] = [Read leftfd None]"
| "forward rm leftfd wfd p (x # xs) =
     Read leftfd (Some x) #
     (if x smod p \<noteq> 0 then
        (if write_ok rm then Write wfd x True # forward (after_write rm) leftfd wfd p xs
         else [Write wfd x False, Fprintf 2 ''write error''])
      else forward rm leftfd wfd p xs)"

text \<open>
  Lines 84 to 99: the write of \<open>first_nonmul\<close>, whose failure is reported but does not
  leave, and then the second loop.
\<close>

definition send :: "room \<Rightarrow> fd \<Rightarrow> fd \<Rightarrow> int \<Rightarrow> int \<Rightarrow> int list \<Rightarrow> event list" where
  "send rm leftfd wfd p first_nonmul rest' =
     (if write_ok rm then [Write wfd first_nonmul True]
      else [Write wfd first_nonmul False, Fprintf 2 ''write error'']) @
     forward (after_write rm) leftfd wfd p rest'"

lemma pre_read_shorter:
  "pre_read leftfd p xs = (evs, Some (x, ys)) \<Longrightarrow> length ys < length xs"
  by (induction xs arbitrary: evs) (auto split: if_splits prod.splits)

lemma forward_offer: "writes (forward None l f p xs) = filter (\<lambda>x. x smod p \<noteq> 0) xs"
  by (induction xs) auto

lemma send_offer:
  "writes (send None l f p x ys) = x # filter (\<lambda>x. x smod p \<noteq> 0) ys"
  by (simp add: send_def forward_offer)

text \<open>
  \<open>sieve w k leftfd inp\<close>: process \<open>k\<close> calls \<open>sieve(leftfd)\<close> on a pipe that offers the
  values \<open>inp\<close>.  The result is the trace of this process and the traces of the
  processes below it in the chain, nearest first.  After a successful \<open>fork\<close> the child
  closes the two descriptors it does not use and calls \<open>sieve\<close> on the new pipe.  That
  pipe offers the child what the parent writes to it when no write fails; what the child
  takes of it decides which writes of the parent succeed.
\<close>

function sieve :: "world \<Rightarrow> nat \<Rightarrow> fd \<Rightarrow> int list \<Rightarrow> event list \<times> event list list" where
  "sieve w k leftfd [] = ([Read leftfd None, Close leftfd, Exit 0], [])"
| "sieve w k leftfd (p # rest) =
     (case pre_read leftfd p rest of
        (evs, None) \<Rightarrow>
          (Read leftfd (Some p) # Printf (prime_line p) # evs @ [Close leftfd, Exit 0], [])
      | (evs, Some (first_nonmul, rest')) \<Rightarrow>
          (case pipe_res w k of
             None \<Rightarrow>
               (Read leftfd (Some p) # Printf (prime_line p) # evs @
                  [Pipe None, Fprintf 2 ''pipe failed'', Close leftfd, Exit 1], [])
           | Some (next0, next1) \<Rightarrow>
               if \<not> fork_ok w k then
                 (Read leftfd (Some p) # Printf (prime_line p) # evs @
                    [Pipe (Some (next0, next1)), Fork Failed, Fprintf 2 ''fork failed'',
                     Close leftfd, Close next0, Close next1, Exit 1], [])
               else
                 (case sieve w (Suc k) next0
                         (writes (send None leftfd next1 p first_nonmul rest')) of
                    (c, cs) \<Rightarrow>
                      (Read leftfd (Some p) # Printf (prime_line p) # evs @
                         [Pipe (Some (next0, next1)), Fork Parent, Close next0] @
                         send (room_of (slack w k) c) leftfd next1 p first_nonmul rest' @
                         [Close leftfd, Close next1, Wait, Exit 0],
                       ([Fork Child, Close next1, Close leftfd] @ c) # cs))))"
  by pat_completeness auto
termination
proof (relation "measure (\<lambda>(w, k, leftfd, inp). length inp)")
  show "wf (measure (\<lambda>(w, k, leftfd, inp). length inp))"
    by simp
next
  fix w :: world and k :: nat and leftfd p :: int and rest :: "int list"
    and x :: "event list \<times> (int \<times> int list) option" and evs :: "event list"
    and nx :: "(int \<times> int list) option" and fr :: "int \<times> int list"
    and first_nonmul :: int and rest' :: "int list" and pr :: "fd \<times> fd" and next0 next1 :: fd
  assume "(evs, nx) = pre_read leftfd p rest" "nx = Some fr" "(first_nonmul, rest') = fr"
  then have "length rest' < length rest"
    using pre_read_shorter [of leftfd p rest evs first_nonmul rest'] by simp
  then have "length (filter (\<lambda>x. x smod p \<noteq> 0) rest') < length rest"
    by (rule le_less_trans [OF length_filter_le])
  then show "((w, Suc k, next0, writes (send None leftfd next1 p first_nonmul rest')),
       (w, k, leftfd, p # rest)) \<in> measure (\<lambda>(w, k, leftfd, inp). length inp)"
    by (simp add: send_offer)
qed

declare sieve.simps [simp del]

subsection \<open>main\<close>

text \<open>
  \<open>main\<close> never looks at its arguments.  The result is the trace of the driver and the
  traces of the stages, nearest first.  The child closes the write end and calls
  \<open>sieve\<close> on the pipe, which offers it what \<open>feed_numbers\<close> writes; the parent, when
  \<open>feed_numbers\<close> returns, closes the write end, waits and exits.
\<close>

definition main :: "world \<Rightarrow> string list \<Rightarrow> event list \<times> event list list" where
  "main w argv =
     (case pipe_res w 0 of
        None \<Rightarrow> ([Pipe None, Fprintf 2 ''pipe() failed'', Exit 1], [])
      | Some (p0, p1) \<Rightarrow>
          if \<not> fork_ok w 0 then
            ([Pipe (Some (p0, p1)), Fork Failed, Fprintf 2 ''fork() failed'', Exit 1], [])
          else
            (case sieve w 1 p0 (writes (feed_numbers None p1)) of
               (c, cs) \<Rightarrow>
                 (let fed = feed_numbers (room_of (slack w 0) c) p1 in
                  [Pipe (Some (p0, p1)), Fork Parent, Close p0] @ fed @
                    (if exit_status fed = None then [Close p1, Wait, Exit 0] else []),
                  ([Fork Child, Close p1] @ c) # cs)))"

subsection \<open>What is observed of a run\<close>

text \<open>
  Standard output is shared by all processes.  A stage prints, once, before it forks,
  its child starts at the fork, and the driver prints nothing (lemmas
  \<open>main_prints_before_fork\<close> and \<open>driver_prints\<close> below): the lines appear in the
  order of the chain.
\<close>

definition stdout_of :: "event list \<times> event list list \<Rightarrow> string list" where
  "stdout_of r = concat (map prints (fst r # snd r))"

text \<open>
  The designated primes of the stages: the first value each one reads, in the order of
  the chain.
\<close>

definition stage_primes :: "event list list \<Rightarrow> int list" where
  "stage_primes ss = concat (map (\<lambda>s. take 1 (reads s)) ss)"

text \<open>
  The values written to the input of stage \<open>i\<close> (counted from 0): those written by the
  process before it in the chain, which is the driver for stage 0.
\<close>

definition stage_input :: "event list \<times> event list list \<Rightarrow> nat \<Rightarrow> int list" where
  "stage_input r i = writes ((fst r # snd r) ! i)"

subsection \<open>Worlds\<close>

text \<open>A world in which every \<open>pipe\<close> and every \<open>fork\<close> succeeds.\<close>

definition no_failure :: "world \<Rightarrow> bool" where
  "no_failure w = (\<forall>k. pipe_res w k \<noteq> None \<and> fork_ok w k)"

text \<open>
  The world of a run started with the descriptors 0, 1 and 2 open, in which every call
  succeeds: \<open>pipe\<close> returns the two lowest free descriptors, and no writer is ahead of
  its reader.
\<close>

definition xv6_world :: world where
  "xv6_world =
     \<lparr>pipe_res = (\<lambda>k. Some (if k = 0 then (3, 4) else if odd k then (4, 5) else (3, 5))),
      fork_ok = (\<lambda>k. True),
      slack = (\<lambda>k. 0)\<rparr>"

text \<open>The same world, except that \<open>pipe\<close>, or \<open>fork\<close>, fails in process \<open>n\<close>.\<close>

definition pipe_fails_at :: "nat \<Rightarrow> world" where
  "pipe_fails_at n = xv6_world\<lparr>pipe_res := (\<lambda>k. if k = n then None else pipe_res xv6_world k)\<rparr>"

definition fork_fails_at :: "nat \<Rightarrow> world" where
  "fork_fails_at n = xv6_world\<lparr>fork_ok := (\<lambda>k. k \<noteq> n)\<rparr>"

subsection \<open>The kernel at run time\<close>

text \<open>
  Modelled from the spec: the kernel is not among the sources.  The traces say what
  each call of a process returns; what follows says when a call can return, so that a
  process that waits for ever on a pipe or on a child can be told from one that goes on.

  A process holds descriptors.  A descriptor is the console or one end of a pipe; a
  pipe is named by the number of the process that created it (each process of this
  program calls \<open>pipe\<close> once at most).  A process starts with the descriptors 0, 1 and
  2 on the console; \<open>pipe\<close> adds the two ends of the new pipe, \<open>close\<close> removes a
  descriptor, \<open>exit\<close> removes all of them, and \<open>fork\<close> gives the child a copy of
  the descriptors of the parent.
\<close>

datatype side = Rd | Wr

datatype chan = Console | PipeEnd nat side

type_synonym fdtab = "(fd \<times> chan) list"

definition std_fds :: fdtab where
  "std_fds = [(0, Console), (1, Console), (2, Console)]"

text \<open>The descriptors of process \<open>k\<close> after one of its calls.\<close>

fun fd_effect :: "nat \<Rightarrow> event \<Rightarrow> fdtab \<Rightarrow> fdtab" where
  "fd_effect k (Pipe (Some (r, w))) T = (r, PipeEnd k Rd) # (w, PipeEnd k Wr) # T"
| "fd_effect k (Close f) T = filter (\<lambda>(g, c). g \<noteq> f) T"
| "fd_effect k (Exit st) T = []"
| "fd_effect k e T = T"

text \<open>
  A process: the calls it has still to make (the rest of its trace), its descriptors,
  its parent, and whether it runs, has exited with a status, or has exited and been
  waited for.
\<close>

datatype status = Running | Zombie int | Reaped

record proc =
  script :: "event list"
  fds :: fdtab
  parent :: "nat option"
  status :: status

text \<open>
  The state of a run: the processes created so far, in the order of their creation;
  the number of values each pipe holds (which value a \<open>read\<close> returns is in the trace);
  the traces of the processes not yet created; and the lines printed on standard output
  so far, in the order in which they were printed.
\<close>

record kstate =
  procs :: "proc list"
  level :: "nat \<Rightarrow> nat"
  pending :: "event list list"
  out :: "string list"

text \<open>The run \<open>r\<close> starts with the driver alone.\<close>

definition start :: "event list \<times> event list list \<Rightarrow> kstate" where
  "start r =
     \<lparr>procs = [\<lparr>script = fst r, fds = std_fds, parent = None, status = Running\<rparr>],
      level = (\<lambda>j. 0), pending = snd r, out = []\<rparr>"

text \<open>An end of a pipe is open as long as some process holds a descriptor on it.\<close>

definition open_end :: "kstate \<Rightarrow> chan \<Rightarrow> bool" where
  "open_end s c = (\<exists>q \<in> set (procs s). c \<in> snd ` set (fds q))"

fun is_zombie :: "status \<Rightarrow> bool" where
  "is_zombie (Zombie st) = True"
| "is_zombie st = False"

text \<open>
  When the call \<open>e\<close> of process \<open>i\<close> returns.  A \<open>read\<close> on the read end of a pipe
  returns when the pipe holds a value, or when its write end is open nowhere (the
  spec's end of stream).  A \<open>write\<close> on the write end of a pipe returns when the pipe
  has room, or when its read end is open nowhere (the spec's send on a closed channel);
  \<open>cap\<close> is the number of values a pipe can hold.  \<open>wait\<close> returns when a child of the
  caller has exited and was not yet waited for, or when the caller has no running child.
  Every other call returns at once.
\<close>

fun returns :: "nat \<Rightarrow> kstate \<Rightarrow> nat \<Rightarrow> event \<Rightarrow> bool" where
  "returns cap s i (Read f v) =
     (case map_of (fds (procs s ! i)) f of
        Some (PipeEnd j Rd) \<Rightarrow> 0 < level s j \<or> \<not> open_end s (PipeEnd j Wr)
      | _ \<Rightarrow> True)"
| "returns cap s i (Write f v b) =
     (case map_of (fds (procs s ! i)) f of
        Some (PipeEnd j Wr) \<Rightarrow> level s j < cap \<or> \<not> open_end s (PipeEnd j Rd)
      | _ \<Rightarrow> True)"
| "returns cap s i Wait =
     ((\<exists>q \<in> set (procs s). parent q = Some i \<and> is_zombie (status q)) \<or>
      (\<forall>q \<in> set (procs s). parent q = Some i \<longrightarrow> status q \<noteq> Running))"
| "returns cap s i e = True"

text \<open>\<open>wait\<close> takes the first child that has exited.\<close>

fun reap :: "nat \<Rightarrow> proc list \<Rightarrow> proc list" where
  "reap i [] = []"
| "reap i (q # qs) =
     (if parent q = Some i \<and> is_zombie (status q) then q\<lparr>status := Reaped\<rparr> # qs
      else q # reap i qs)"

text \<open>
  What a call that returns does to the pipes, the processes and the console: a \<open>read\<close>
  takes a value if the pipe holds one, a \<open>write\<close> adds one if the read end is open,
  \<open>fork\<close> creates the next process of the run with the descriptors of its parent, and
  \<open>printf\<close> writes its line.
\<close>

fun kernel :: "nat \<Rightarrow> nat \<Rightarrow> event \<Rightarrow> kstate \<Rightarrow> kstate option" where
  "kernel cap i (Read f v) s =
     Some (case map_of (fds (procs s ! i)) f of
             Some (PipeEnd j Rd) \<Rightarrow> s\<lparr>level := (level s)(j := level s j - 1)\<rparr>
           | _ \<Rightarrow> s)"
| "kernel cap i (Write f v b) s =
     Some (case map_of (fds (procs s ! i)) f of
             Some (PipeEnd j Wr) \<Rightarrow>
               if open_end s (PipeEnd j Rd) \<and> level s j < cap
               then s\<lparr>level := (level s)(j := level s j + 1)\<rparr> else s
           | _ \<Rightarrow> s)"
| "kernel cap i (Fork Parent) s =
     (case pending s of
        [] \<Rightarrow> None
      | c # cs \<Rightarrow>
          Some (s\<lparr>procs := procs s @
                     [\<lparr>script = c, fds = fds (procs s ! i), parent = Some i, status = Running\<rparr>],
                  pending := cs\<rparr>))"
| "kernel cap i Wait s = Some (s\<lparr>procs := reap i (procs s)\<rparr>)"
| "kernel cap i (Printf l) s = Some (s\<lparr>out := out s @ [l]\<rparr>)"
| "kernel cap i e s = Some s"

fun after :: "event \<Rightarrow> status" where
  "after (Exit st) = Zombie st"
| "after e = Running"

text \<open>
  One step of a run: a running process whose next call returns makes that call.  The
  step does not ask that the kernel, in this state, answers what the trace says; the
  states that can be reached so include those of every run in which the processes
  perform these traces, in whatever order the kernel lets them run.
\<close>

definition kstep :: "nat \<Rightarrow> kstate \<Rightarrow> nat \<Rightarrow> kstate option" where
  "kstep cap s i =
     (if i < length (procs s) \<and> status (procs s ! i) = Running then
        (case script (procs s ! i) of
           [] \<Rightarrow> None
         | e # es \<Rightarrow>
             if returns cap s i e then
               (case kernel cap i e s of
                  None \<Rightarrow> None
                | Some s' \<Rightarrow>
                    Some (s'\<lparr>procs := (procs s')[i := (procs s' ! i)
                              \<lparr>script := es, fds := fd_effect i e (fds (procs s' ! i)),
                               status := after e\<rparr>]\<rparr>))
             else None)
      else None)"

inductive reachable :: "nat \<Rightarrow> event list \<times> event list list \<Rightarrow> kstate \<Rightarrow> bool"
  for cap :: nat and r :: "event list \<times> event list list" where
  init: "reachable cap r (start r)"
| step: "reachable cap r s \<Longrightarrow> kstep cap s i = Some s' \<Longrightarrow> reachable cap r s'"

definition all_exited :: "kstate \<Rightarrow> bool" where
  "all_exited s = (\<forall>q \<in> set (procs s). status q \<noteq> Running)"

text \<open>The calls still to be made.\<close>

definition steps_left :: "kstate \<Rightarrow> nat" where
  "steps_left s =
     sum_list (map (\<lambda>q. length (script q)) (procs s)) + sum_list (map length (pending s))"

text \<open>
  A scheduler: the first process whose call returns makes it; \<open>run cap n s\<close> takes up
  to \<open>n\<close> steps in this way.
\<close>

fun first_step :: "nat \<Rightarrow> kstate \<Rightarrow> nat list \<Rightarrow> kstate option" where
  "first_step cap s [] = None"
| "first_step cap s (i # js) =
     (case kstep cap s i of Some s' \<Rightarrow> Some s' | None \<Rightarrow> first_step cap s js)"

fun run :: "nat \<Rightarrow> nat \<Rightarrow> kstate \<Rightarrow> kstate" where
  "run cap 0 s = s"
| "run cap (Suc n) s =
     (case first_step cap s [0..<length (procs s)] of None \<Rightarrow> s | Some s' \<Rightarrow> run cap n s')"

text \<open>
  Modelled from the spec: \<open>pipe\<close> returns two distinct descriptors that were not open
  in the caller.  A process of this program holds, when it calls \<open>pipe\<close>, the three
  descriptors of the console and, if it is a stage, the read end of its input.
\<close>

definition fresh_fds :: "world \<Rightarrow> bool" where
  "fresh_fds w =
     ((\<forall>k r wr. pipe_res w k = Some (r, wr) \<longrightarrow> r \<noteq> wr \<and> 2 < r \<and> 2 < wr) \<and>
      (\<forall>k l l' r wr. pipe_res w k = Some (l, l') \<and> pipe_res w (Suc k) = Some (r, wr) \<longrightarrow>
         r \<noteq> l \<and> wr \<noteq> l))"

subsection \<open>The primes\<close>

definition is_prime :: "int \<Rightarrow> bool" where
  "is_prime n = (1 < n \<and> list_all (\<lambda>d. \<not> d dvd n) [2..n - 1])"

text \<open>
  What the successive pipes offer when nothing fails: the input, then what the first
  stage forwards, and so on, as long as there is something to forward; and the heads
  of these pipes.
\<close>

function streams :: "int list \<Rightarrow> int list list" where
  "streams [] = []"
| "streams (p # xs) = (p # xs) # streams (filter (\<lambda>x. x smod p \<noteq> 0) xs)"
  by pat_completeness auto
termination
  by (relation "measure length") (auto simp: le_imp_less_Suc)

function sift :: "int list \<Rightarrow> int list" where
  "sift [] = []"
| "sift (p # xs) = p # sift (filter (\<lambda>x. x smod p \<noteq> 0) xs)"
  by pat_completeness auto
termination
  by (relation "measure length") (auto simp: le_imp_less_Suc)

text \<open>
  What a new process does before it calls \<open>sieve\<close>: it closes the descriptors it does
  not use.
\<close>

fun child_pre :: "event list \<Rightarrow> bool" where
  "child_pre [] = True"
| "child_pre (Fork Child # es) = child_pre es"
| "child_pre (Close a # es) = child_pre es"
| "child_pre (e # es) = False"

section \<open>Properties of the model\<close>

declare upto_rec_numeral [simp del]

subsection \<open>Traces\<close>

lemma smod_dvd: "(x::int) smod p = 0 \<longleftrightarrow> p dvd x"
  by (auto simp: smod_int_alt_def sgn_if dvd_eq_mod_eq_0 [symmetric])

lemma reads_append [simp]: "reads (a @ b) = reads a @ reads b"
  by (induction a rule: reads.induct) auto

lemma writes_append [simp]: "writes (a @ b) = writes a @ writes b"
  by (induction a rule: writes.induct) auto

lemma prints_append [simp]: "prints (a @ b) = prints a @ prints b"
  by (induction a rule: prints.induct) auto

lemma errors_append [simp]: "errors (a @ b) = errors a @ errors b"
  by (induction a rule: errors.induct) auto

lemma saw_eof_append [simp]: "saw_eof (a @ b) \<longleftrightarrow> saw_eof a \<or> saw_eof b"
  by (induction a rule: saw_eof.induct) auto

lemma exit_status_append [simp]: "b \<noteq> [] \<Longrightarrow> exit_status (a @ b) = exit_status b"
  by (induction a rule: exit_status.induct) (auto simp: neq_Nil_conv)

lemma exit_status_Cons [simp]: "b \<noteq> [] \<Longrightarrow> exit_status (e # b) = exit_status b"
  by (cases b; cases e) auto

lemma exit_status_Cons_Some [simp]: "exit_status c = Some s \<Longrightarrow> exit_status (e # c) = Some s"
  by (cases c) auto

lemma exit_status_child:
  "exit_status c = Some s \<Longrightarrow> exit_status (pre @ c) = Some s"
  by (cases c) auto

lemma reads_map_Read [simp]: "reads (map (\<lambda>x. Read l (Some x)) xs) = xs"
  by (induction xs) auto

lemma writes_map_Read [simp]: "writes (map (\<lambda>x. Read l (Some x)) xs) = []"
  by (induction xs) auto

lemma prints_map_Read [simp]: "prints (map (\<lambda>x. Read l (Some x)) xs) = []"
  by (induction xs) auto

lemma errors_map_Read [simp]: "errors (map (\<lambda>x. Read l (Some x)) xs) = []"
  by (induction xs) auto

lemma saw_eof_map_Read [simp]: "\<not> saw_eof (map (\<lambda>x. Read l (Some x)) xs)"
  by (induction xs) auto

lemma writes_map_Write [simp]: "writes (map (\<lambda>v. Write f v True) xs) = xs"
  by (induction xs) auto

lemma exit_status_map_Write [simp]: "exit_status (map (\<lambda>v. Write f v True) xs) = None"
  by (induction xs rule: induct_list012) auto

lemma prints_map_Write [simp]: "prints (map (\<lambda>v. Write f v True) xs) = []"
  by (induction xs) auto

lemma errors_map_Write [simp]: "errors (map (\<lambda>v. Write f v True) xs) = []"
  by (induction xs) auto

lemma child_pre_quiet:
  "child_pre pre \<Longrightarrow>
     reads pre = [] \<and> writes pre = [] \<and> prints pre = [] \<and> errors pre = [] \<and> \<not> saw_eof pre"
  by (induction pre rule: child_pre.induct) auto

lemma child_pre_events:
  "child_pre pre \<Longrightarrow> e \<in> set pre \<Longrightarrow> e = Fork Child \<or> (\<exists>a. e = Close a)"
  by (induction pre rule: child_pre.induct) auto

lemma room_of_eof: "saw_eof c \<Longrightarrow> room_of sl c = None"
  by (simp add: room_of_def)

lemma room_of_reads: "reads c \<noteq> [] \<Longrightarrow> write_ok (room_of sl c)"
  by (cases "reads c") (auto simp: room_of_def)

lemma take_upto_neq: "n < length xs \<Longrightarrow> take n xs \<noteq> xs"
  by (metis length_take min.absorb4 nat_neq_iff)

lemma prefix_take_more: "prefix xs ys \<Longrightarrow> length xs \<le> n \<Longrightarrow> prefix xs (take n ys)"
  by (auto simp: prefix_def)

subsection \<open>The primes\<close>

lemma is_prime_iff: "is_prime n \<longleftrightarrow> 1 < n \<and> (\<forall>d. 1 < d \<and> d < n \<longrightarrow> \<not> d dvd n)"
  by (auto simp: is_prime_def list_all_iff)

text \<open>
  A value stays in \<open>sift\<close> of an ascending list exactly when no earlier value of the
  list divides it: a value removed by an earlier one passes its multiples on to that
  one.
\<close>

lemma sift_filter:
  "sorted_wrt (<) xs \<Longrightarrow>
     sift xs = filter (\<lambda>x. \<forall>y \<in> set xs. y < x \<longrightarrow> \<not> y dvd x) xs"
proof (induction xs rule: sift.induct)
  case 1
  then show ?case by simp
next
  case (2 p xs)
  let ?ys = "filter (\<lambda>x. x smod p \<noteq> 0) xs"
  from "2.prems" have lt: "\<forall>y \<in> set xs. p < y" and s: "sorted_wrt (<) xs" by simp_all
  from s have "sorted_wrt (<) ?ys" by (rule sorted_wrt_filter)
  then have "sift ?ys = filter (\<lambda>x. \<forall>y \<in> set ?ys. y < x \<longrightarrow> \<not> y dvd x) ?ys"
    by (rule "2.IH")
  also have "\<dots> = filter (\<lambda>x. \<forall>y \<in> set (p # xs). y < x \<longrightarrow> \<not> y dvd x) xs"
    unfolding filter_filter
  proof (rule filter_cong [OF refl])
    fix x assume x: "x \<in> set xs"
    show "(x smod p \<noteq> 0 \<and> (\<forall>y \<in> set ?ys. y < x \<longrightarrow> \<not> y dvd x)) =
          (\<forall>y \<in> set (p # xs). y < x \<longrightarrow> \<not> y dvd x)"
    proof
      assume a: "x smod p \<noteq> 0 \<and> (\<forall>y \<in> set ?ys. y < x \<longrightarrow> \<not> y dvd x)"
      then have np: "\<not> p dvd x" by (simp add: smod_dvd)
      show "\<forall>y \<in> set (p # xs). y < x \<longrightarrow> \<not> y dvd x"
      proof (intro ballI impI)
        fix y assume y: "y \<in> set (p # xs)" "y < x"
        show "\<not> y dvd x"
        proof (cases "p dvd y")
          case True
          with np show ?thesis using dvd_trans by blast
        next
          case False
          with y np have "y \<in> set ?ys" by (auto simp: smod_dvd)
          with a y(2) show ?thesis by blast
        qed
      qed
    next
      assume a: "\<forall>y \<in> set (p # xs). y < x \<longrightarrow> \<not> y dvd x"
      with lt x have "\<not> p dvd x" by auto
      with a show "x smod p \<noteq> 0 \<and> (\<forall>y \<in> set ?ys. y < x \<longrightarrow> \<not> y dvd x)"
        by (auto simp: smod_dvd)
    qed
  qed
  finally have "sift ?ys = filter (\<lambda>x. \<forall>y \<in> set (p # xs). y < x \<longrightarrow> \<not> y dvd x) xs" .
  moreover have "\<forall>y \<in> set (p # xs). y < p \<longrightarrow> \<not> y dvd p" using lt by auto
  ultimately show ?case by simp
qed

text \<open>
  The sieve is right for every bound: it keeps the primes of \<open>2..n\<close>.
\<close>

lemma sift_primes: "sift [2..n] = filter is_prime [2..n]"
proof -
  have "sorted_wrt (<) [2..n]" by (simp add: strict_sorted_iff)
  then have "sift [2..n] = filter (\<lambda>x. \<forall>y \<in> set [2..n]. y < x \<longrightarrow> \<not> y dvd x) [2..n]"
    by (rule sift_filter)
  also have "\<dots> = filter is_prime [2..n]"
    by (rule filter_cong [OF refl]) (auto simp: is_prime_iff)
  finally show ?thesis .
qed

lemma sorted_35: "sorted_wrt (<) (filter is_prime [2..35])"
proof -
  have "sorted_wrt (<) [2..35::int]"
    by (simp add: strict_sorted_iff)
  then show ?thesis by (rule sorted_wrt_filter)
qed

lemma sift_streams: "sift inp = map hd (streams inp)"
  by (induction inp rule: sift.induct) auto

lemma streams_length: "length (streams inp) \<le> length inp"
proof (induction inp rule: streams.induct)
  case 1
  then show ?case by simp
next
  case (2 p xs)
  from 2 have "length (streams (filter (\<lambda>x. x smod p \<noteq> 0) xs)) \<le> length xs"
    by (rule order_trans) (rule length_filter_le)
  then show ?case by simp
qed

lemma streams_nth:
  "i < length (streams inp) \<Longrightarrow> streams inp ! i \<noteq> [] \<and> set (streams inp ! i) \<subseteq> set inp"
proof (induction inp arbitrary: i rule: streams.induct)
  case 1
  then show ?case by simp
next
  case (2 p xs)
  show ?case
  proof (cases i)
    case 0
    then show ?thesis by simp
  next
    case (Suc j)
    with 2 show ?thesis by auto
  qed
qed

lemma streams_nth_length: "i < length (streams inp) \<Longrightarrow> length (streams inp ! i) \<le> length inp"
proof (induction inp arbitrary: i rule: streams.induct)
  case 1
  then show ?case by simp
next
  case (2 p xs)
  show ?case
  proof (cases i)
    case 0
    then show ?thesis by simp
  next
    case (Suc j)
    with "2.prems" have "length (streams (filter (\<lambda>x. x smod p \<noteq> 0) xs) ! j)
        \<le> length (filter (\<lambda>x. x smod p \<noteq> 0) xs)"
      by (intro "2.IH") simp
    then have "length (streams (filter (\<lambda>x. x smod p \<noteq> 0) xs) ! j) \<le> length xs"
      by (rule order_trans) (rule length_filter_le)
    with Suc show ?thesis by simp
  qed
qed

lemma streams_nonmul:
  "i < length (streams inp) \<Longrightarrow> j < i \<Longrightarrow> v \<in> set (streams inp ! i) \<Longrightarrow>
     v smod hd (streams inp ! j) \<noteq> 0"
proof (induction inp arbitrary: i j rule: streams.induct)
  case 1
  then show ?case by simp
next
  case (2 p xs)
  from "2.prems" obtain i' where i: "i = Suc i'" by (cases i) auto
  have i': "i' < length (streams (filter (\<lambda>x. x smod p \<noteq> 0) xs))"
    and v: "v \<in> set (streams (filter (\<lambda>x. x smod p \<noteq> 0) xs) ! i')"
    using "2.prems" i by auto
  show ?case
  proof (cases j)
    case 0
    from streams_nth [OF i'] v have "v \<in> set (filter (\<lambda>x. x smod p \<noteq> 0) xs)" by blast
    with 0 show ?thesis by simp
  next
    case (Suc j')
    with "2.prems" i have "j' < i'" by simp
    from "2.IH" [OF i' this v] Suc show ?thesis by simp
  qed
qed

lemma streams_Suc:
  "Suc i < length (streams inp) \<Longrightarrow>
     streams inp ! Suc i = filter (\<lambda>x. x smod hd (streams inp ! i) \<noteq> 0) (tl (streams inp ! i))"
proof (induction inp arbitrary: i rule: streams.induct)
  case 1
  then show ?case by simp
next
  case (2 p xs)
  show ?case
  proof (cases i)
    case 0
    with "2.prems" show ?thesis
      by (cases "filter (\<lambda>x. x smod p \<noteq> 0) xs") auto
  next
    case (Suc j)
    with 2 show ?thesis by simp
  qed
qed

subsection \<open>The loops\<close>

lemma pre_read_None:
  "pre_read l p xs = (evs, None) \<Longrightarrow>
     evs = map (\<lambda>x. Read l (Some x)) xs @ [Read l None] \<and> filter (\<lambda>x. x smod p \<noteq> 0) xs = []"
  by (induction xs arbitrary: evs) (auto split: if_splits prod.splits)

lemma pre_read_Some:
  "pre_read l p xs = (evs, Some (x, ys)) \<Longrightarrow>
     \<exists>ms. xs = ms @ x # ys \<and> evs = map (\<lambda>x. Read l (Some x)) (ms @ [x]) \<and>
          filter (\<lambda>x. x smod p \<noteq> 0) ms = [] \<and> x smod p \<noteq> 0"
proof (induction xs arbitrary: evs)
  case Nil
  then show ?case by simp
next
  case (Cons a xs)
  show ?case
  proof (cases "a smod p \<noteq> 0")
    case True
    with Cons.prems show ?thesis by (intro exI [of _ "[]"]) auto
  next
    case False
    then obtain evs' where e: "pre_read l p xs = (evs', Some (x, ys))" "evs = Read l (Some a) # evs'"
      using Cons.prems by (auto split: prod.splits)
    from Cons.IH [OF e(1)] obtain ms where
      "xs = ms @ x # ys" "evs' = map (\<lambda>x. Read l (Some x)) (ms @ [x])"
      "filter (\<lambda>x. x smod p \<noteq> 0) ms = []" "x smod p \<noteq> 0" by blast
    with False e(2) show ?thesis by (intro exI [of _ "a # ms"]) auto
  qed
qed

lemma forward_prints [simp]: "prints (forward rm l f p xs) = []"
  by (induction xs arbitrary: rm) auto

lemma forward_None:
  "writes (forward None l f p xs) = filter (\<lambda>x. x smod p \<noteq> 0) xs \<and>
   reads (forward None l f p xs) = xs \<and> saw_eof (forward None l f p xs) \<and>
   errors (forward None l f p xs) = []"
  by (induction xs) auto

lemma forward_Some_writes:
  "writes (forward (Some n) l f p ys) = take n (filter (\<lambda>x. x smod p \<noteq> 0) ys)"
proof (induction ys arbitrary: n)
  case Nil
  then show ?case by simp
next
  case (Cons y ys)
  then show ?case by (cases n) auto
qed

lemma forward_writes:
  "prefix (writes (forward rm l f p ys)) (filter (\<lambda>x. x smod p \<noteq> 0) ys)"
  by (induction ys arbitrary: rm) auto

lemma forward_reads: "set (reads (forward rm l f p ys)) \<subseteq> set ys"
  by (induction ys arbitrary: rm) auto

lemma forward_reads_prefix:
  "prefix (reads (forward rm l f p ys)) ys \<and>
   (saw_eof (forward rm l f p ys) \<longrightarrow> reads (forward rm l f p ys) = ys)"
  by (induction ys arbitrary: rm) auto

lemma forward_length: "length (forward rm l f p ys) \<le> 2 * length ys + 1"
  by (induction ys arbitrary: rm) (auto intro: le_SucI)

lemma forward_events:
  "e \<in> set (forward rm l f p ys) \<Longrightarrow>
     (\<exists>v. e = Read l v) \<or> (\<exists>v b. e = Write f v b) \<or> e = Fprintf 2 ''write error''"
  by (induction ys arbitrary: rm) (auto split: if_splits)

lemma forward_plain:
  "Wait \<notin> set (forward rm l f p ys) \<and> Exit st \<notin> set (forward rm l f p ys)"
  using forward_events [of Wait rm l f p ys] forward_events [of "Exit st" rm l f p ys] by auto

lemma feed_from_None: "feed_from None wfd i = map (\<lambda>v. Write wfd v True) [i..35]"
proof (induction "None :: room" wfd i rule: feed_from.induct)
  case (1 wfd i)
  show ?case
  proof (cases "i \<le> 35")
    case True
    then have "[i..35] = i # [i + 1..35]" by (simp add: upto_rec1)
    with True 1 show ?thesis by (subst feed_from.simps) simp
  next
    case False
    then show ?thesis by (subst feed_from.simps) simp
  qed
qed

lemma feed_from_Some:
  "feed_from (Some n) wfd i =
     (if length [i..35] \<le> n then map (\<lambda>v. Write wfd v True) [i..35]
      else map (\<lambda>v. Write wfd v True) (take n [i..35]) @
           [Write wfd ([i..35] ! n) False, Fprintf 2 ''writer: write error'', Exit 1])"
proof (induction "Some n :: room" wfd i arbitrary: n rule: feed_from.induct)
  case (1 wfd i)
  show ?case
  proof (cases "i \<le> 35")
    case False
    then show ?thesis by (subst feed_from.simps) simp
  next
    case True
    then have up: "[i..35] = i # [i + 1..35]" by (simp add: upto_rec1)
    show ?thesis
    proof (cases n)
      case 0
      with True up show ?thesis by (subst feed_from.simps) simp
    next
      case (Suc m)
      have "feed_from (Some m) wfd (i + 1) =
         (if length [i + 1..35] \<le> m then map (\<lambda>v. Write wfd v True) [i + 1..35]
          else map (\<lambda>v. Write wfd v True) (take m [i + 1..35]) @
           [Write wfd ([i + 1..35] ! m) False, Fprintf 2 ''writer: write error'', Exit 1])"
        using 1 [of m] True Suc by simp
      with True up Suc show ?thesis by (subst feed_from.simps) simp
    qed
  qed
qed

lemma feed_offer: "writes (feed_numbers None wfd) = [2..35]"
  by (simp add: feed_numbers_def feed_from_None)

subsection \<open>The ways through sieve and main\<close>

text \<open>
  The four ways through \<open>sieve\<close> once a first value was read.
\<close>

lemma sieve_ConsE:
  assumes "sieve w k l (p # rest) = (c, cs)"
  obtains
    (alone) evs where "pre_read l p rest = (evs, None)"
      "c = Read l (Some p) # Printf (prime_line p) # evs @ [Close l, Exit 0]" "cs = []"
  | (nopipe) evs x ys where "pre_read l p rest = (evs, Some (x, ys))" "pipe_res w k = None"
      "c = Read l (Some p) # Printf (prime_line p) # evs @
             [Pipe None, Fprintf 2 ''pipe failed'', Close l, Exit 1]" "cs = []"
  | (nofork) evs x ys n0 n1 where "pre_read l p rest = (evs, Some (x, ys))"
      "pipe_res w k = Some (n0, n1)" "\<not> fork_ok w k"
      "c = Read l (Some p) # Printf (prime_line p) # evs @
             [Pipe (Some (n0, n1)), Fork Failed, Fprintf 2 ''fork failed'',
              Close l, Close n0, Close n1, Exit 1]" "cs = []"
  | (spawn) evs x ys n0 n1 c' cs' where "pre_read l p rest = (evs, Some (x, ys))"
      "pipe_res w k = Some (n0, n1)" "fork_ok w k"
      "sieve w (Suc k) n0 (x # filter (\<lambda>x. x smod p \<noteq> 0) ys) = (c', cs')"
      "c = Read l (Some p) # Printf (prime_line p) # evs @
             [Pipe (Some (n0, n1)), Fork Parent, Close n0] @
             (if write_ok (room_of (slack w k) c') then [Write n1 x True]
              else [Write n1 x False, Fprintf 2 ''write error'']) @
             forward (after_write (room_of (slack w k) c')) l n1 p ys @
             [Close l, Close n1, Wait, Exit 0]"
      "cs = ([Fork Child, Close n1, Close l] @ c') # cs'"
proof (cases "pre_read l p rest")
  case (Pair evs nx)
  show ?thesis
  proof (cases nx)
    case None
    with Pair assms show ?thesis
      by (intro alone [of evs]) (simp_all add: sieve.simps)
  next
    case (Some fr)
    obtain x ys where fr: "fr = (x, ys)" by (cases fr)
    show ?thesis
    proof (cases "pipe_res w k")
      case None
      with Pair Some fr assms show ?thesis
        by (intro nopipe [of evs x ys]) (simp_all add: sieve.simps)
    next
      case pr: (Some pr)
      obtain n0 n1 where pp: "pr = (n0, n1)" by (cases pr)
      show ?thesis
      proof (cases "fork_ok w k")
        case False
        with Pair Some fr pr pp assms show ?thesis
          by (intro nofork [of evs x ys n0 n1]) (simp_all add: sieve.simps)
      next
        case True
        obtain c' cs'
          where ch: "sieve w (Suc k) n0 (x # filter (\<lambda>x. x smod p \<noteq> 0) ys) = (c', cs')"
          by (cases "sieve w (Suc k) n0 (x # filter (\<lambda>x. x smod p \<noteq> 0) ys)")
        with True Pair Some fr pr pp assms show ?thesis
          by (intro spawn [of evs x ys n0 n1 c' cs']) (simp_all add: sieve.simps(2) [of w k l p rest] send_def forward_offer)
      qed
    qed
  qed
qed

lemma sieve_Nil: "sieve w k l [] = (c, cs) \<longleftrightarrow> c = [Read l None, Close l, Exit 0] \<and> cs = []"
  by (auto simp: sieve.simps)

lemma sieve_reads_hd: "sieve w k l (p # rest) = (c, cs) \<Longrightarrow> \<exists>rs. reads c = p # rs"
  by (erule sieve_ConsE) auto

text \<open>
  The same four ways with the first loop resolved.  The first write to a new pipe always
  succeeds: the child takes at least the value that made the parent fork.
\<close>

lemma sieve_cases:
  assumes "sieve w k l (p # rest) = (c, cs)"
  obtains
    (alone) "filter (\<lambda>x. x smod p \<noteq> 0) rest = []"
      "c = Read l (Some p) # Printf (prime_line p) # map (\<lambda>x. Read l (Some x)) rest @
             [Read l None, Close l, Exit 0]" "cs = []"
  | (nopipe) ms x ys where "rest = ms @ x # ys" "filter (\<lambda>x. x smod p \<noteq> 0) ms = []"
      "x smod p \<noteq> 0" "pipe_res w k = None"
      "c = Read l (Some p) # Printf (prime_line p) # map (\<lambda>x. Read l (Some x)) (ms @ [x]) @
             [Pipe None, Fprintf 2 ''pipe failed'', Close l, Exit 1]" "cs = []"
  | (nofork) ms x ys n0 n1 where "rest = ms @ x # ys" "filter (\<lambda>x. x smod p \<noteq> 0) ms = []"
      "x smod p \<noteq> 0" "pipe_res w k = Some (n0, n1)" "\<not> fork_ok w k"
      "c = Read l (Some p) # Printf (prime_line p) # map (\<lambda>x. Read l (Some x)) (ms @ [x]) @
             [Pipe (Some (n0, n1)), Fork Failed, Fprintf 2 ''fork failed'',
              Close l, Close n0, Close n1, Exit 1]" "cs = []"
  | (spawn) ms x ys n0 n1 c' cs' where "rest = ms @ x # ys"
      "filter (\<lambda>x. x smod p \<noteq> 0) ms = []" "x smod p \<noteq> 0"
      "pipe_res w k = Some (n0, n1)" "fork_ok w k"
      "sieve w (Suc k) n0 (filter (\<lambda>x. x smod p \<noteq> 0) rest) = (c', cs')"
      "filter (\<lambda>x. x smod p \<noteq> 0) rest = x # filter (\<lambda>x. x smod p \<noteq> 0) ys"
      "c = Read l (Some p) # Printf (prime_line p) # map (\<lambda>x. Read l (Some x)) (ms @ [x]) @
             [Pipe (Some (n0, n1)), Fork Parent, Close n0, Write n1 x True] @
             forward (after_write (room_of (slack w k) c')) l n1 p ys @
             [Close l, Close n1, Wait, Exit 0]"
      "cs = ([Fork Child, Close n1, Close l] @ c') # cs'"
  using assms
proof (cases rule: sieve_ConsE)
  case (alone evs)
  from pre_read_None [OF alone(1)] alone(2,3) show ?thesis
    by (intro that(1)) auto
next
  case (nopipe evs x ys)
  from pre_read_Some [OF nopipe(1)] obtain ms where
    "rest = ms @ x # ys" "evs = map (\<lambda>x. Read l (Some x)) (ms @ [x])"
    "filter (\<lambda>x. x smod p \<noteq> 0) ms = []" "x smod p \<noteq> 0" by blast
  with nopipe(2-) show ?thesis
    by (intro that(2) [of ms x ys]) auto
next
  case (nofork evs x ys n0 n1)
  from pre_read_Some [OF nofork(1)] obtain ms where
    "rest = ms @ x # ys" "evs = map (\<lambda>x. Read l (Some x)) (ms @ [x])"
    "filter (\<lambda>x. x smod p \<noteq> 0) ms = []" "x smod p \<noteq> 0" by blast
  with nofork(2-) show ?thesis
    by (intro that(3) [of ms x ys n0 n1]) auto
next
  case (spawn evs x ys n0 n1 c' cs')
  from pre_read_Some [OF spawn(1)] obtain ms where ms:
    "rest = ms @ x # ys" "evs = map (\<lambda>x. Read l (Some x)) (ms @ [x])"
    "filter (\<lambda>x. x smod p \<noteq> 0) ms = []" "x smod p \<noteq> 0" by blast
  have flt: "filter (\<lambda>x. x smod p \<noteq> 0) rest = x # filter (\<lambda>x. x smod p \<noteq> 0) ys"
    using ms by simp
  from sieve_reads_hd [OF spawn(4)] have "reads c' \<noteq> []" by auto
  then have ok: "write_ok (room_of (slack w k) c')" by (rule room_of_reads)
  show ?thesis
    using spawn(2-) ms flt ok
    by (intro that(4) [of ms x ys n0 n1 c' cs']) auto
qed

text \<open>
  The ways through \<open>main\<close>.
\<close>

lemma main_cases:
  obtains
    (nopipe) "pipe_res w 0 = None"
      "main w argv = ([Pipe None, Fprintf 2 ''pipe() failed'', Exit 1], [])"
  | (nofork) p0 p1 where "pipe_res w 0 = Some (p0, p1)" "\<not> fork_ok w 0"
      "main w argv =
         ([Pipe (Some (p0, p1)), Fork Failed, Fprintf 2 ''fork() failed'', Exit 1], [])"
  | (fed) p0 p1 c cs where "pipe_res w 0 = Some (p0, p1)" "fork_ok w 0"
      "sieve w 1 p0 [2..35] = (c, cs)"
      "main w argv =
         ([Pipe (Some (p0, p1)), Fork Parent, Close p0] @
            map (\<lambda>v. Write p1 v True) [2..35] @ [Close p1, Wait, Exit 0],
          ([Fork Child, Close p1] @ c) # cs)"
  | (cut) p0 p1 c cs n where "pipe_res w 0 = Some (p0, p1)" "fork_ok w 0"
      "sieve w 1 p0 [2..35] = (c, cs)" "\<not> saw_eof c" "n < length [2..35]"
      "n = length (reads c) + slack w 0"
      "main w argv =
         ([Pipe (Some (p0, p1)), Fork Parent, Close p0] @
            map (\<lambda>v. Write p1 v True) (take n [2..35]) @
            [Write p1 ([2..35] ! n) False, Fprintf 2 ''writer: write error'', Exit 1],
          ([Fork Child, Close p1] @ c) # cs)"
proof (cases "pipe_res w 0")
  case None
  then show ?thesis by (intro nopipe) (simp_all add: main_def)
next
  case (Some pr)
  obtain p0 p1 where pp: "pr = (p0, p1)" by (cases pr)
  show ?thesis
  proof (cases "fork_ok w 0")
    case False
    with Some pp show ?thesis by (intro nofork [of p0 p1]) (simp_all add: main_def)
  next
    case True
    obtain c cs where sv: "sieve w 1 p0 [2..35] = (c, cs)"
      by (cases "sieve w 1 p0 [2..35]")
    show ?thesis
    proof (cases "saw_eof c \<or> length [2..35] \<le> length (reads c) + slack w 0")
      case all: True
      have "feed_numbers (room_of (slack w 0) c) p1 = map (\<lambda>v. Write p1 v True) [2..35]"
        using all by (auto simp: room_of_def feed_numbers_def feed_from_None feed_from_Some)
      with Some pp True sv show ?thesis
        by (intro fed [of p0 p1 c cs]) (simp_all add: main_def feed_offer)
    next
      case part: False
      define n where "n = length (reads c) + slack w 0"
      have "feed_numbers (room_of (slack w 0) c) p1 =
          map (\<lambda>v. Write p1 v True) (take n [2..35]) @
            [Write p1 ([2..35] ! n) False, Fprintf 2 ''writer: write error'', Exit 1]"
        using part by (auto simp: room_of_def feed_numbers_def feed_from_Some n_def)
      with Some pp True sv part show ?thesis
        by (intro cut [of p0 p1 c cs n]) (simp_all add: main_def feed_offer n_def)
    qed
  qed
qed

subsection \<open>One stage\<close>

text \<open>
  What the trace of a stage that read a first value looks like.
\<close>

lemma sieve_own:
  assumes "sieve w k l (p # rest) = (c, cs)"
  shows "(\<exists>rs. reads c = p # rs) \<and> set (reads c) \<subseteq> set (p # rest) \<and>
    prefix (writes c) (filter (\<lambda>x. x smod p \<noteq> 0) rest) \<and> prints c = [prime_line p] \<and>
    (exit_status c = Some 0 \<or> exit_status c = Some 1) \<and> length c \<le> 2 * length (p # rest) + 8 \<and>
    length (filter (\<lambda>e. e = Fork Parent) c) \<le> 1 \<and> (cs \<noteq> [] \<longleftrightarrow> Fork Parent \<in> set c)"
  using assms
proof (cases rule: sieve_cases)
  case alone
  then show ?thesis by (auto simp: filter_empty_conv)
next
  case (nopipe ms x ys)
  then show ?thesis by (auto simp: filter_empty_conv)
next
  case (nofork ms x ys n0 n1)
  then show ?thesis by (auto simp: filter_empty_conv)
next
  case (spawn ms x ys n0 n1 c' cs')
  let ?fw = "forward (after_write (room_of (slack w k) c')) l n1 p ys"
  have 1: "\<exists>rs. reads c = p # rs" using spawn(8) by simp
  have 2: "set (reads c) \<subseteq> set (p # rest)"
    using spawn(1,8) forward_reads [of "after_write (room_of (slack w k) c')" l n1 p ys] by auto
  have 3: "prefix (writes c) (filter (\<lambda>x. x smod p \<noteq> 0) rest)"
    using spawn(7,8) forward_writes [of "after_write (room_of (slack w k) c')" l n1 p ys] by simp
  have 4: "prints c = [prime_line p]" using spawn(8) by simp
  have 5: "exit_status c = Some 0" using spawn(8) by simp
  have 6: "length c \<le> 2 * length (p # rest) + 8"
    using spawn(1,8) forward_length [of "after_write (room_of (slack w k) c')" l n1 p ys] by simp
  have nf: "Fork Parent \<notin> set ?fw" using forward_events [of "Fork Parent"] by auto
  then have "filter (\<lambda>e. e = Fork Parent) ?fw = []" by (auto simp: filter_empty_conv)
  then have 7: "length (filter (\<lambda>e. e = Fork Parent) c) \<le> 1"
    using spawn(8) by (simp add: filter_empty_conv)
  have 8: "cs \<noteq> [] \<longleftrightarrow> Fork Parent \<in> set c" using spawn(8,9) by simp
  from 1 2 3 4 5 6 7 8 show ?thesis by blast
qed

text \<open>
  The end of the trace of a stage, by what happened at its \<open>pipe\<close> and \<open>fork\<close>.
\<close>

lemma sieve_shape:
  assumes "sieve w k l (p # rest) = (c, cs)"
  shows "(Fork Parent \<in> set c \<longrightarrow>
            (\<exists>pre n0 n1. c = pre @ [Close l, Close n1, Wait, Exit 0] \<and>
               Pipe (Some (n0, n1)) \<in> set pre \<and> Wait \<notin> set pre \<and> (\<forall>st. Exit st \<notin> set pre))) \<and>
         (Pipe None \<in> set c \<longrightarrow> cs = [] \<and>
            (\<exists>pre. c = pre @ [Pipe None, Fprintf 2 ''pipe failed'', Close l, Exit 1] \<and>
               Read l (Some p) \<in> set pre)) \<and>
         (Fork Failed \<in> set c \<longrightarrow> cs = [] \<and>
            (\<exists>pre n0 n1. c = pre @ [Pipe (Some (n0, n1)), Fork Failed, Fprintf 2 ''fork failed'',
                 Close l, Close n0, Close n1, Exit 1] \<and>
               Read l (Some p) \<in> set pre))"
  using assms
proof (cases rule: sieve_cases)
  case alone
  then show ?thesis by auto
next
  case (nopipe ms x ys)
  let ?pre = "Read l (Some p) # Printf (prime_line p) # map (\<lambda>x. Read l (Some x)) (ms @ [x])"
  have c: "c = ?pre @ [Pipe None, Fprintf 2 ''pipe failed'', Close l, Exit 1]"
    using nopipe(5) by simp
  have "Read l (Some p) \<in> set ?pre"
    by simp
  then have "\<exists>pre. c = pre @ [Pipe None, Fprintf 2 ''pipe failed'', Close l, Exit 1] \<and>
               Read l (Some p) \<in> set pre"
    using c by blast
  moreover have "Fork Parent \<notin> set c" "Fork Failed \<notin> set c" using nopipe(5) by auto
  ultimately show ?thesis using nopipe(6) by blast
next
  case (nofork ms x ys n0 n1)
  let ?pre = "Read l (Some p) # Printf (prime_line p) # map (\<lambda>x. Read l (Some x)) (ms @ [x])"
  have c: "c = ?pre @ [Pipe (Some (n0, n1)), Fork Failed, Fprintf 2 ''fork failed'',
                 Close l, Close n0, Close n1, Exit 1]"
    using nofork(6) by simp
  have "Read l (Some p) \<in> set ?pre"
    by simp
  then have "\<exists>pre n0 n1. c = pre @ [Pipe (Some (n0, n1)), Fork Failed, Fprintf 2 ''fork failed'',
                 Close l, Close n0, Close n1, Exit 1] \<and>
               Read l (Some p) \<in> set pre"
    using c by blast
  moreover have "Fork Parent \<notin> set c" "Pipe None \<notin> set c" using nofork(6) by auto
  ultimately show ?thesis using nofork(7) by blast
next
  case (spawn ms x ys n0 n1 c' cs')
  let ?fw = "forward (after_write (room_of (slack w k) c')) l n1 p ys"
  let ?pre = "Read l (Some p) # Printf (prime_line p) # map (\<lambda>x. Read l (Some x)) (ms @ [x]) @
             [Pipe (Some (n0, n1)), Fork Parent, Close n0, Write n1 x True] @ ?fw"
  have c: "c = ?pre @ [Close l, Close n1, Wait, Exit 0]"
    using spawn(8) by simp
  have fw: "Wait \<notin> set ?fw" "\<And>st. Exit st \<notin> set ?fw"
    "Pipe None \<notin> set ?fw" "Fork Failed \<notin> set ?fw"
    using forward_plain forward_events [of "Pipe None" _ l n1 p ys]
      forward_events [of "Fork Failed" _ l n1 p ys] by auto
  then have "Pipe (Some (n0, n1)) \<in> set ?pre" "Wait \<notin> set ?pre" "\<forall>st. Exit st \<notin> set ?pre"
    by auto
  then have "\<exists>pre n0 n1. c = pre @ [Close l, Close n1, Wait, Exit 0] \<and>
               Pipe (Some (n0, n1)) \<in> set pre \<and> Wait \<notin> set pre \<and> (\<forall>st. Exit st \<notin> set pre)"
    using c by blast
  moreover have "Pipe None \<notin> set c" "Fork Failed \<notin> set c" using spawn(8) fw by auto
  ultimately show ?thesis by blast
qed

text \<open>
  A stage reads an initial part of what its pipe offers, all of it if it meets end of file.
\<close>

lemma sieve_reads_prefix:
  assumes "sieve w k l inp = (c, cs)"
  shows "prefix (reads c) inp \<and> (saw_eof c \<longrightarrow> reads c = inp)"
proof (cases inp)
  case Nil
  with assms show ?thesis by (auto simp: sieve.simps)
next
  case (Cons p rest)
  from assms [unfolded Cons] show ?thesis
  proof (cases rule: sieve_cases)
    case alone
    then show ?thesis using Cons by simp
  next
    case (nopipe ms x ys)
    then show ?thesis using Cons by simp
  next
    case (nofork ms x ys n0 n1)
    then show ?thesis using Cons by simp
  next
    case (spawn ms x ys n0 n1 c' cs')
    then show ?thesis
      using Cons forward_reads_prefix [of "after_write (room_of (slack w k) c')" l n1 p ys]
      by simp
  qed
qed

lemma successor_prime:
  assumes "sieve w k l (p # rest) = (c, cs)" and "cs \<noteq> []"
  shows "filter (\<lambda>x. x smod p \<noteq> 0) rest \<noteq> [] \<and>
         hd (filter (\<lambda>x. x smod p \<noteq> 0) rest) \<in> set (reads c)"
  using assms by (cases rule: sieve_cases) auto

text \<open>
  The pipe between a stage and its successor: the successor read an initial part of what
  the stage wrote, and all of it if it met end of file.
\<close>

lemma spawn_consistent:
  assumes "sieve w k l (p # rest) = (c, cs)" and "cs \<noteq> []"
  shows "prefix (reads (hd cs)) (writes c) \<and> (saw_eof (hd cs) \<longrightarrow> reads (hd cs) = writes c)"
  using assms
proof (cases rule: sieve_cases)
  case (spawn ms x ys n0 n1 c' cs')
  let ?off = "filter (\<lambda>x. x smod p \<noteq> 0) rest"
  let ?rm = "room_of (slack w k) c'"
  from sieve_reads_prefix [OF spawn(6)]
  have rp: "prefix (reads c') ?off" and re: "saw_eof c' \<longrightarrow> reads c' = ?off" by simp_all
  have hd: "reads (hd cs) = reads c'" "saw_eof (hd cs) = saw_eof c'"
    using spawn(9) by simp_all
  have wc: "writes c = x # writes (forward (after_write ?rm) l n1 p ys)"
    using spawn(8) by simp
  show ?thesis
  proof (cases "saw_eof c'")
    case True
    then have "?rm = None" by (rule room_of_eof)
    then have "writes c = ?off"
      using wc spawn(7) forward_None [of l n1 p ys] by simp
    with True re hd show ?thesis by simp
  next
    case False
    from sieve_reads_hd [OF spawn(6) [unfolded spawn(7)]] obtain r where r: "length (reads c') = Suc r"
      by auto
    have "?rm = Some (Suc r + slack w k)" using False r by (simp add: room_of_def)
    then have "writes c = x # take (r + slack w k) (filter (\<lambda>x. x smod p \<noteq> 0) ys)"
      using wc by (simp add: forward_Some_writes)
    then have w: "writes c = take (Suc r + slack w k) ?off"
      using spawn(7) by simp
    from rp obtain zs where "?off = reads c' @ zs" by (auto simp: prefix_def)
    then have "take (Suc r) ?off = reads c'" using r by simp
    then have "reads c' = take (Suc r) (take (Suc r + slack w k) ?off)"
      by simp
    then have "prefix (reads c') (writes c)"
      unfolding w by (metis take_is_prefix)
    with False hd show ?thesis by simp
  qed
qed (use assms in simp_all)

text \<open>
  A stage prints nothing after it forked.
\<close>

lemma prints_before_fork:
  assumes "sieve w k l inp = (c, cs)" and "Fork Parent \<in> set c"
  shows "\<exists>a b. c = a @ Fork Parent # b \<and> Fork Parent \<notin> set a \<and> prints b = []"
proof (cases inp)
  case Nil
  with assms show ?thesis by (auto simp: sieve.simps)
next
  case (Cons p rest)
  from assms(1) [unfolded Cons] assms(2) show ?thesis
  proof (cases rule: sieve_cases)
    case (spawn ms x ys n0 n1 c' cs')
    let ?a = "Read l (Some p) # Printf (prime_line p) # map (\<lambda>x. Read l (Some x)) (ms @ [x]) @
               [Pipe (Some (n0, n1))]"
    let ?b = "[Close n0, Write n1 x True] @
               forward (after_write (room_of (slack w k) c')) l n1 p ys @
               [Close l, Close n1, Wait, Exit 0]"
    have "c = ?a @ Fork Parent # ?b" using spawn(8) by simp
    moreover have "Fork Parent \<notin> set ?a" by auto
    moreover have "prints ?b = []" by simp
    ultimately show ?thesis by blast
  qed auto
qed

subsection \<open>The chain\<close>

text \<open>
  Every process of the chain below a stage runs \<open>sieve\<close> on one of the successive pipes:
  the process at position \<open>i\<close> on pipe \<open>i\<close>.
\<close>

lemma sieve_stage:
  "sieve w k l inp = (c, cs) \<Longrightarrow> inp \<noteq> [] \<Longrightarrow> i \<le> length cs \<Longrightarrow>
     i < length (streams inp) \<and>
     (\<exists>k' l' c' cs' pre. sieve w k' l' (streams inp ! i) = (c', cs') \<and>
        (c # cs) ! i = pre @ c' \<and> cs' = drop i cs \<and> (i = 0 \<longrightarrow> pre = []) \<and>
        child_pre pre \<and> length pre \<le> 3)"
proof (induction "length inp" arbitrary: k l inp c cs i rule: less_induct)
  case less
  from less.prems(2) obtain p rest where inp: "inp = p # rest" by (cases inp) auto
  show ?case
  proof (cases i)
    case 0
    have "sieve w k l (streams inp ! i) = (c, cs)" "i < length (streams inp)"
      using less.prems(1) inp 0 by simp_all
    then show ?thesis using 0
      by (intro conjI exI [of _ k] exI [of _ l] exI [of _ c] exI [of _ cs] exI [of _ "[]"])
        simp_all
  next
    case (Suc j)
    with less.prems(3) have ne: "cs \<noteq> []" by auto
    from less.prems(1) [unfolded inp] ne show ?thesis
    proof (cases rule: sieve_cases)
      case (spawn ms x ys n0 n1 c' cs')
      let ?inp' = "filter (\<lambda>x. x smod p \<noteq> 0) rest"
      have ne': "?inp' \<noteq> []" using spawn(7) by simp
      have lt: "length ?inp' < length inp" unfolding inp by (simp add: le_imp_less_Suc)
      have j: "j \<le> length cs'" using less.prems(3) Suc spawn(9) by simp
      from less.hyps [OF lt spawn(6) ne' j] obtain k' l' c'' cs'' pre where IH:
        "j < length (streams ?inp')" "sieve w k' l' (streams ?inp' ! j) = (c'', cs'')"
        "(c' # cs') ! j = pre @ c''" "j = 0 \<longrightarrow> pre = []" "child_pre pre" "length pre \<le> 3"
        "cs'' = drop j cs'"
        by blast
      have dr: "cs'' = drop i cs" using IH(7) Suc spawn(9) by simp
      have st: "streams inp ! i = streams ?inp' ! j" "i < length (streams inp)"
        using IH(1) Suc inp by simp_all
      show ?thesis
      proof (cases j)
        case 0
        then have "(c # cs) ! i = [Fork Child, Close n1, Close l] @ c''"
          using IH(3,4) Suc spawn(9) by simp
        moreover have "child_pre [Fork Child, Close n1, Close l]" by simp
        ultimately show ?thesis using st IH(2) Suc dr
          by (intro conjI exI [of _ k'] exI [of _ l'] exI [of _ c''] exI [of _ cs'']
              exI [of _ "[Fork Child, Close n1, Close l]"]) simp_all
      next
        case j': (Suc j')
        then have "(c # cs) ! i = pre @ c''"
          using IH(3) Suc spawn(9) by simp
        then show ?thesis using st IH(2,5,6) Suc dr
          by (intro conjI exI [of _ k'] exI [of _ l'] exI [of _ c''] exI [of _ cs'']
              exI [of _ pre]) simp_all
      qed
    qed simp_all
  qed
qed

lemma main_stage:
  assumes "i < length (snd (main w argv))"
  shows "i < length (streams [2..35]) \<and>
     (\<exists>k l c' cs' pre. sieve w k l (streams [2..35] ! i) = (c', cs') \<and>
        snd (main w argv) ! i = pre @ c' \<and> cs' = drop (Suc i) (snd (main w argv)) \<and>
        child_pre pre \<and> length pre \<le> 3)"
proof -
  have ne: "[2..35] \<noteq> ([] :: int list)" by (simp add: upto_rec1)
  have *: ?thesis
    if sv: "sieve w 1 p0 [2..35] = (c, cs)"
      and m: "snd (main w argv) = ([Fork Child, Close p1] @ c) # cs" for p0 p1 c cs
  proof -
    have "i \<le> length cs" using assms m by simp
    from sieve_stage [OF sv ne this] obtain k' l' c' cs' pre where st:
      "i < length (streams [2..35])" "sieve w k' l' (streams [2..35] ! i) = (c', cs')"
      "(c # cs) ! i = pre @ c'" "i = 0 \<longrightarrow> pre = []" "child_pre pre" "length pre \<le> 3"
      "cs' = drop i cs"
      by blast
    have dr: "cs' = drop (Suc i) (snd (main w argv))" using st(7) m by simp
    show ?thesis
    proof (cases i)
      case 0
      then have "snd (main w argv) ! i = [Fork Child, Close p1] @ c'"
        using st(3,4) m by simp
      then show ?thesis using st(1,2) dr
        by (intro conjI exI [of _ k'] exI [of _ l'] exI [of _ c'] exI [of _ cs']
            exI [of _ "[Fork Child, Close p1]"]) simp_all
    next
      case (Suc j)
      then have "snd (main w argv) ! i = pre @ c'"
        using st(3) m by simp
      then show ?thesis using st(1,2,5,6) dr
        by (intro conjI exI [of _ k'] exI [of _ l'] exI [of _ c'] exI [of _ cs']
            exI [of _ pre]) simp_all
    qed
  qed
  show ?thesis
  proof (cases rule: main_cases [of w argv])
    case nopipe
    with assms show ?thesis by simp
  next
    case (nofork p0 p1)
    with assms show ?thesis by simp
  next
    case (fed p0 p1 c cs)
    then show ?thesis by (intro * [of p0 c cs p1]) simp_all
  next
    case (cut p0 p1 c cs n)
    then show ?thesis by (intro * [of p0 c cs p1]) simp_all
  qed
qed

text \<open>
  What is known of the stage at position \<open>i\<close> of a run, in every world.
\<close>

lemma main_stage_facts:
  assumes "i < length (snd (main w argv))"
  shows "i < length (streams [2..35])"
    and "take 1 (reads (snd (main w argv) ! i)) = [hd (streams [2..35] ! i)]"
    and "set (reads (snd (main w argv) ! i)) \<subseteq> set (streams [2..35] ! i)"
    and "prefix (writes (snd (main w argv) ! i))
           (filter (\<lambda>x. x smod hd (streams [2..35] ! i) \<noteq> 0) (tl (streams [2..35] ! i)))"
    and "prints (snd (main w argv) ! i) = [prime_line (hd (streams [2..35] ! i))]"
    and "exit_status (snd (main w argv) ! i) = Some 0 \<or>
         exit_status (snd (main w argv) ! i) = Some 1"
    and "length (snd (main w argv) ! i) \<le> 2 * length (streams [2..35] ! i) + 11"
    and "length (filter (\<lambda>e. e = Fork Parent) (snd (main w argv) ! i)) \<le> 1"
    and "Suc i < length (snd (main w argv)) \<longleftrightarrow> Fork Parent \<in> set (snd (main w argv) ! i)"
proof -
  from main_stage [OF assms] obtain k l c' cs' pre where st:
    "i < length (streams [2..35])" "sieve w k l (streams [2..35] ! i) = (c', cs')"
    "snd (main w argv) ! i = pre @ c'" "cs' = drop (Suc i) (snd (main w argv))"
    "child_pre pre" "length pre \<le> 3"
    by blast
  from streams_nth [OF st(1)] obtain p rest where pr: "streams [2..35] ! i = p # rest"
    by (cases "streams [2..35] ! i") auto
  note own = sieve_own [OF st(2) [unfolded pr]]
  note q = child_pre_quiet [OF st(5)]
  show "i < length (streams [2..35])" by (rule st(1))
  show "take 1 (reads (snd (main w argv) ! i)) = [hd (streams [2..35] ! i)]"
    using own q st(3) pr by auto
  show "set (reads (snd (main w argv) ! i)) \<subseteq> set (streams [2..35] ! i)"
    using own q st(3) pr by auto
  show "prefix (writes (snd (main w argv) ! i))
           (filter (\<lambda>x. x smod hd (streams [2..35] ! i) \<noteq> 0) (tl (streams [2..35] ! i)))"
    using own q st(3) pr by auto
  show "prints (snd (main w argv) ! i) = [prime_line (hd (streams [2..35] ! i))]"
    using own q st(3) pr by auto
  show "exit_status (snd (main w argv) ! i) = Some 0 \<or>
         exit_status (snd (main w argv) ! i) = Some 1"
    using own st(3) by (auto simp: exit_status_child)
  show "length (snd (main w argv) ! i) \<le> 2 * length (streams [2..35] ! i) + 11"
    using own st(3,6) pr by auto
  have nf: "Fork Parent \<notin> set pre" using child_pre_events [OF st(5), of "Fork Parent"] by auto
  then have "filter (\<lambda>e. e = Fork Parent) pre = []" by (auto simp: filter_empty_conv)
  then show "length (filter (\<lambda>e. e = Fork Parent) (snd (main w argv) ! i)) \<le> 1"
    using own st(3) by auto
  have "cs' \<noteq> [] \<longleftrightarrow> Suc i < length (snd (main w argv))" using st(4) by auto
  then show "Suc i < length (snd (main w argv)) \<longleftrightarrow> Fork Parent \<in> set (snd (main w argv) ! i)"
    using own nf st(3) by auto
qed

lemma main_stage_shape:
  assumes "i < length (snd (main w argv))"
  shows "(Fork Parent \<in> set (snd (main w argv) ! i) \<longrightarrow>
            (\<exists>pre lf n0 n1. snd (main w argv) ! i = pre @ [Close lf, Close n1, Wait, Exit 0] \<and>
               Pipe (Some (n0, n1)) \<in> set pre \<and> Wait \<notin> set pre \<and> (\<forall>st. Exit st \<notin> set pre))) \<and>
         (Pipe None \<in> set (snd (main w argv) ! i) \<longrightarrow> Suc i = length (snd (main w argv)) \<and>
            (\<exists>pre lf. snd (main w argv) ! i =
                 pre @ [Pipe None, Fprintf 2 ''pipe failed'', Close lf, Exit 1] \<and>
               (\<exists>v. Read lf v \<in> set pre))) \<and>
         (Fork Failed \<in> set (snd (main w argv) ! i) \<longrightarrow> Suc i = length (snd (main w argv)) \<and>
            (\<exists>pre lf n0 n1. snd (main w argv) ! i =
                 pre @ [Pipe (Some (n0, n1)), Fork Failed, Fprintf 2 ''fork failed'',
                        Close lf, Close n0, Close n1, Exit 1] \<and>
               (\<exists>v. Read lf v \<in> set pre)))"
proof -
  from main_stage [OF assms] obtain k l c' cs' pre0 where st:
    "i < length (streams [2..35])" "sieve w k l (streams [2..35] ! i) = (c', cs')"
    "snd (main w argv) ! i = pre0 @ c'" "cs' = drop (Suc i) (snd (main w argv))"
    "child_pre pre0" "length pre0 \<le> 3"
    by blast
  from streams_nth [OF st(1)] obtain p rest where pr: "streams [2..35] ! i = p # rest"
    by (cases "streams [2..35] ! i") auto
  note sh = sieve_shape [OF st(2) [unfolded pr]]
  have pre0: "Fork Parent \<notin> set pre0" "Pipe None \<notin> set pre0" "Fork Failed \<notin> set pre0"
    "Wait \<notin> set pre0" "\<And>st. Exit st \<notin> set pre0"
    using child_pre_events [OF st(5)] by auto
  have last: "Suc i = length (snd (main w argv))" if "cs' = []"
    using that st(4) assms by simp
  have 1: "\<exists>pre lf n0 n1. snd (main w argv) ! i = pre @ [Close lf, Close n1, Wait, Exit 0] \<and>
               Pipe (Some (n0, n1)) \<in> set pre \<and> Wait \<notin> set pre \<and> (\<forall>st. Exit st \<notin> set pre)"
    if "Fork Parent \<in> set (snd (main w argv) ! i)"
  proof -
    from that pre0 st(3) have "Fork Parent \<in> set c'" by simp
    with sh obtain pre n0 n1 where c: "c' = pre @ [Close l, Close n1, Wait, Exit 0]"
      "Pipe (Some (n0, n1)) \<in> set pre" "Wait \<notin> set pre" "\<forall>st. Exit st \<notin> set pre"
      by blast
    have "snd (main w argv) ! i = (pre0 @ pre) @ [Close l, Close n1, Wait, Exit 0]"
      using st(3) c(1) by simp
    moreover have "Pipe (Some (n0, n1)) \<in> set (pre0 @ pre)" "Wait \<notin> set (pre0 @ pre)"
      "\<forall>st. Exit st \<notin> set (pre0 @ pre)"
      using c(2-) pre0 by auto
    ultimately show ?thesis by blast
  qed
  have 2: "Suc i = length (snd (main w argv)) \<and>
            (\<exists>pre lf. snd (main w argv) ! i =
                 pre @ [Pipe None, Fprintf 2 ''pipe failed'', Close lf, Exit 1] \<and>
               (\<exists>v. Read lf v \<in> set pre))"
    if "Pipe None \<in> set (snd (main w argv) ! i)"
  proof -
    from that pre0 st(3) have "Pipe None \<in> set c'" by simp
    with sh obtain pre where c: "cs' = []"
      "c' = pre @ [Pipe None, Fprintf 2 ''pipe failed'', Close l, Exit 1]"
      "Read l (Some p) \<in> set pre"
      by blast
    have "snd (main w argv) ! i = (pre0 @ pre) @ [Pipe None, Fprintf 2 ''pipe failed'', Close l, Exit 1]"
      using st(3) c(2) by simp
    moreover have "\<exists>v. Read l v \<in> set (pre0 @ pre)" using c(3) by auto
    ultimately show ?thesis using last [OF c(1)] by blast
  qed
  have 3: "Suc i = length (snd (main w argv)) \<and>
            (\<exists>pre lf n0 n1. snd (main w argv) ! i =
                 pre @ [Pipe (Some (n0, n1)), Fork Failed, Fprintf 2 ''fork failed'',
                        Close lf, Close n0, Close n1, Exit 1] \<and>
               (\<exists>v. Read lf v \<in> set pre))"
    if "Fork Failed \<in> set (snd (main w argv) ! i)"
  proof -
    from that pre0 st(3) have "Fork Failed \<in> set c'" by simp
    with sh obtain pre n0 n1 where c: "cs' = []"
      "c' = pre @ [Pipe (Some (n0, n1)), Fork Failed, Fprintf 2 ''fork failed'',
                        Close l, Close n0, Close n1, Exit 1]"
      "Read l (Some p) \<in> set pre"
      by blast
    have "snd (main w argv) ! i = (pre0 @ pre) @ [Pipe (Some (n0, n1)), Fork Failed,
        Fprintf 2 ''fork failed'', Close l, Close n0, Close n1, Exit 1]"
      using st(3) c(2) by simp
    moreover have "\<exists>v. Read l v \<in> set (pre0 @ pre)" using c(3) by auto
    ultimately show ?thesis using last [OF c(1)] by blast
  qed
  from 1 2 3 show ?thesis by blast
qed

lemma main_length: "length (snd (main w argv)) \<le> length (streams [2..35])"
proof (cases "snd (main w argv)")
  case Nil
  then show ?thesis by simp
next
  case (Cons s ss)
  then have "length ss < length (snd (main w argv))" by simp
  from main_stage_facts(1) [OF this] Cons show ?thesis by simp
qed

lemma main_primes: "stage_primes (snd (main w argv)) = take (length (snd (main w argv))) (sift [2..35])"
proof -
  have "map (\<lambda>s. take 1 (reads s)) (snd (main w argv)) =
        map (\<lambda>v. [v]) (take (length (snd (main w argv))) (sift [2..35]))"
  proof (rule nth_equalityI)
    show "length (map (\<lambda>s. take 1 (reads s)) (snd (main w argv))) =
        length (map (\<lambda>v. [v]) (take (length (snd (main w argv))) (sift [2..35])))"
      using main_length [of w argv] by (simp add: sift_streams)
  next
    fix i assume "i < length (map (\<lambda>s. take 1 (reads s)) (snd (main w argv)))"
    then have i: "i < length (snd (main w argv))" by simp
    from main_stage_facts(1,2) [OF i] i
    show "map (\<lambda>s. take 1 (reads s)) (snd (main w argv)) ! i =
        map (\<lambda>v. [v]) (take (length (snd (main w argv))) (sift [2..35])) ! i"
      by (simp add: sift_streams)
  qed
  then show ?thesis
    unfolding stage_primes_def by (simp add: concat_map_singleton)
qed

lemma main_primes_nth:
  "j < length (snd (main w argv)) \<Longrightarrow>
     stage_primes (snd (main w argv)) ! j = hd (streams [2..35] ! j)"
  using main_stage_facts(1) [of j w argv] by (simp add: main_primes sift_streams)

lemma main_primes_length: "length (stage_primes (snd (main w argv))) = length (snd (main w argv))"
  using main_length [of w argv] by (simp add: main_primes sift_streams)

lemma main_stdout: "stdout_of (main w argv) = map prime_line (stage_primes (snd (main w argv)))"
proof -
  have d: "prints (fst (main w argv)) = []"
    by (cases rule: main_cases [of w argv]) simp_all
  have "map prints (snd (main w argv)) =
        map (\<lambda>v. [prime_line v]) (take (length (snd (main w argv))) (sift [2..35]))"
  proof (rule nth_equalityI)
    show "length (map prints (snd (main w argv))) =
        length (map (\<lambda>v. [prime_line v]) (take (length (snd (main w argv))) (sift [2..35])))"
      using main_length [of w argv] by (simp add: sift_streams)
  next
    fix i assume "i < length (map prints (snd (main w argv)))"
    then have i: "i < length (snd (main w argv))" by simp
    from main_stage_facts(1,5) [OF i] i
    show "map prints (snd (main w argv)) ! i =
        map (\<lambda>v. [prime_line v]) (take (length (snd (main w argv))) (sift [2..35])) ! i"
      by (simp add: sift_streams)
  qed
  then have "concat (map prints (snd (main w argv))) =
      map prime_line (take (length (snd (main w argv))) (sift [2..35]))"
    by (simp add: concat_map_singleton)
  then show ?thesis using d by (simp add: stdout_of_def main_primes)
qed

lemma main_successor_prime:
  assumes "Suc i < length (snd (main w argv))"
  shows "hd (streams [2..35] ! Suc i) \<in> set (reads (snd (main w argv) ! i))"
proof -
  have i: "i < length (snd (main w argv))" using assms by simp
  from main_stage [OF i] obtain k l c' cs' pre where st:
    "i < length (streams [2..35])" "sieve w k l (streams [2..35] ! i) = (c', cs')"
    "snd (main w argv) ! i = pre @ c'" "cs' = drop (Suc i) (snd (main w argv))"
    "child_pre pre" "length pre \<le> 3"
    by blast
  from streams_nth [OF st(1)] obtain p rest where pr: "streams [2..35] ! i = p # rest"
    by (cases "streams [2..35] ! i") auto
  have ne: "cs' \<noteq> []" using st(4) assms by auto
  have "Suc i < length (streams [2..35])" using main_stage_facts(1) [OF assms] .
  from streams_Suc [OF this] pr
  have "streams [2..35] ! Suc i = filter (\<lambda>x. x smod p \<noteq> 0) rest" by simp
  with successor_prime [OF st(2) [unfolded pr] ne] st(3) show ?thesis by simp
qed

text \<open>
  The model of the pipes is consistent along the whole chain: every value a stage read
  was written to its input, in that order, and a stage that met end of file read all
  that was written.
\<close>

lemma pipes_consistent:
  assumes "i < length (snd (main w argv))"
  shows "prefix (reads (snd (main w argv) ! i)) (stage_input (main w argv) i) \<and>
     (saw_eof (snd (main w argv) ! i) \<longrightarrow>
        reads (snd (main w argv) ! i) = stage_input (main w argv) i)"
proof (cases i)
  case 0
  show ?thesis
  proof (cases rule: main_cases [of w argv])
    case nopipe
    with assms show ?thesis by simp
  next
    case (nofork p0 p1)
    with assms show ?thesis by simp
  next
    case (fed p0 p1 c cs)
    with sieve_reads_prefix [OF fed(3)] 0 show ?thesis
      by (simp add: stage_input_def)
  next
    case (cut p0 p1 c cs n)
    from sieve_reads_prefix [OF cut(3)] have "prefix (reads c) [2..35]" by simp
    then have "prefix (reads c) (take n [2..35])"
      by (rule prefix_take_more) (simp add: cut(6))
    with cut 0 show ?thesis
      by (simp add: stage_input_def)
  qed
next
  case (Suc j)
  then have j: "j < length (snd (main w argv))" using assms by simp
  from main_stage [OF j] obtain k l c' cs' pre where st:
    "j < length (streams [2..35])" "sieve w k l (streams [2..35] ! j) = (c', cs')"
    "snd (main w argv) ! j = pre @ c'" "cs' = drop (Suc j) (snd (main w argv))"
    "child_pre pre" "length pre \<le> 3"
    by blast
  from streams_nth [OF st(1)] obtain p rest where pr: "streams [2..35] ! j = p # rest"
    by (cases "streams [2..35] ! j") auto
  have ne: "cs' \<noteq> []" using st(4) assms Suc by simp
  have hd: "hd cs' = snd (main w argv) ! i"
    using st(4) assms Suc by (simp add: hd_drop_conv_nth)
  have "stage_input (main w argv) i = writes c'"
    using Suc st(3) child_pre_quiet [OF st(5)] by (simp add: stage_input_def)
  with spawn_consistent [OF st(2) [unfolded pr] ne] hd show ?thesis by simp
qed

text \<open>
  The order of the lines on standard output: a stage prints nothing after it forked,
  and the driver prints nothing.
\<close>

lemma main_prints_before_fork:
  assumes "s \<in> set (snd (main w argv))" and "Fork Parent \<in> set s"
  shows "\<exists>a b. s = a @ Fork Parent # b \<and> Fork Parent \<notin> set a \<and> prints b = []"
proof -
  from assms(1) obtain i where i: "i < length (snd (main w argv))" "s = snd (main w argv) ! i"
    by (auto simp: in_set_conv_nth)
  from main_stage [OF i(1)] obtain k l c' cs' pre where st:
    "sieve w k l (streams [2..35] ! i) = (c', cs')"
    "snd (main w argv) ! i = pre @ c'" "child_pre pre"
    by blast
  have np: "Fork Parent \<notin> set pre" using child_pre_events [OF st(3), of "Fork Parent"] by auto
  with assms(2) i(2) st(2) have "Fork Parent \<in> set c'" by simp
  from prints_before_fork [OF st(1) this] obtain a b where
    "c' = a @ Fork Parent # b" "Fork Parent \<notin> set a" "prints b = []" by blast
  then have "s = (pre @ a) @ Fork Parent # b" "Fork Parent \<notin> set (pre @ a)" "prints b = []"
    using i(2) st(2) np by simp_all
  then show ?thesis by blast
qed

lemma driver_prints: "prints (fst (main w argv)) = []"
  by (cases rule: main_cases [of w argv]) simp_all

text \<open>
  Every process ends with \<open>exit\<close> after a bounded number of steps.
\<close>

lemma sieve_bounds:
  assumes "sieve w k l inp = (c, cs)"
  shows "length cs \<le> length inp"
    and "s \<in> set (c # cs) \<Longrightarrow>
          (exit_status s = Some 0 \<or> exit_status s = Some 1) \<and> length s \<le> 2 * length inp + 11"
proof -
  have *: "(exit_status ((c # cs) ! i) = Some 0 \<or> exit_status ((c # cs) ! i) = Some 1) \<and>
        length ((c # cs) ! i) \<le> 2 * length inp + 11 \<and> i \<le> length inp"
    if i: "i \<le> length cs" for i
  proof (cases inp)
    case Nil
    with assms i show ?thesis by (auto simp: sieve.simps)
  next
    case (Cons a as)
    then have ne: "inp \<noteq> []" by simp
    from sieve_stage [OF assms ne i] obtain k' l' c' cs' pre where st:
      "i < length (streams inp)" "sieve w k' l' (streams inp ! i) = (c', cs')"
      "(c # cs) ! i = pre @ c'" "child_pre pre" "length pre \<le> 3"
      by blast
    from streams_nth [OF st(1)] obtain p rest where pr: "streams inp ! i = p # rest"
      by (cases "streams inp ! i") auto
    note own = sieve_own [OF st(2) [unfolded pr]]
    have "length (p # rest) \<le> length inp"
      using streams_nth_length [OF st(1)] pr by simp
    moreover have "i \<le> length inp" using st(1) streams_length [of inp] by simp
    ultimately show ?thesis
      using own st(3,5) by (auto simp: exit_status_child)
  qed
  show "length cs \<le> length inp" using * [of "length cs"] by simp
  show "(exit_status s = Some 0 \<or> exit_status s = Some 1) \<and> length s \<le> 2 * length inp + 11"
    if "s \<in> set (c # cs)"
  proof -
    from that obtain i where "i < length (c # cs)" "s = (c # cs) ! i"
      by (auto simp: in_set_conv_nth simp del: length_Cons set_simps)
    then show ?thesis using * [of i] by simp
  qed
qed

lemma driver_bounds:
  "(exit_status (fst (main w argv)) = Some 0 \<or> exit_status (fst (main w argv)) = Some 1) \<and>
   length (fst (main w argv)) \<le> 40"
  by (cases rule: main_cases [of w argv]) simp_all

subsection \<open>Runs in which nothing fails\<close>

lemma no_failureD: "no_failure w \<Longrightarrow> pipe_res w k \<noteq> None" "no_failure w \<Longrightarrow> fork_ok w k"
  unfolding no_failure_def by blast+

text \<open>
  In every world the lines printed below a stage are, in the order of the chain, the
  heads of the successive pipes, one for each process.
\<close>

lemma sieve_prints:
  "sieve w k l inp = (c, cs) \<Longrightarrow>
     prints c = map prime_line (take 1 inp) \<and>
     concat (map prints (c # cs)) = map prime_line (take (Suc (length cs)) (sift inp))"
proof (induction "length inp" arbitrary: k l inp c cs rule: less_induct)
  case less
  show ?case
  proof (cases inp)
    case Nil
    with less.prems show ?thesis by (auto simp: sieve.simps)
  next
    case (Cons p rest)
    from less.prems [unfolded Cons] show ?thesis
    proof (cases rule: sieve_ConsE)
      case (alone evs)
      then show ?thesis using Cons by (auto dest: pre_read_None)
    next
      case (nopipe evs x ys)
      then show ?thesis using Cons by (auto dest: pre_read_Some)
    next
      case (nofork evs x ys n0 n1)
      then show ?thesis using Cons by (auto dest: pre_read_Some)
    next
      case (spawn evs x ys n0 n1 c' cs')
      from pre_read_Some [OF spawn(1)] obtain ms where ms:
        "rest = ms @ x # ys" "evs = map (\<lambda>x. Read l (Some x)) (ms @ [x])"
        "filter (\<lambda>x. x smod p \<noteq> 0) ms = []" "x smod p \<noteq> 0" by blast
      have flt: "filter (\<lambda>x. x smod p \<noteq> 0) rest = x # filter (\<lambda>x. x smod p \<noteq> 0) ys"
        using ms by simp
      have "length (x # filter (\<lambda>x. x smod p \<noteq> 0) ys) < length inp"
        unfolding flt [symmetric] Cons by (simp add: le_imp_less_Suc)
      from less.hyps [OF this spawn(4)] have IH:
        "concat (map prints (c' # cs')) =
           map prime_line (take (Suc (length cs')) (sift (x # filter (\<lambda>x. x smod p \<noteq> 0) ys)))"
        by blast
      have pc: "prints c = [prime_line p]"
        using spawn(5) ms(2) by simp
      show ?thesis
        using pc IH spawn(6) Cons flt by simp
    qed
  qed
qed

lemma sieve_no_failure:
  "no_failure w \<Longrightarrow> sieve w k l inp = (c, cs) \<Longrightarrow>
     saw_eof c \<and> length cs = length (sift inp) - 1 \<and>
     (\<forall>s \<in> set (c # cs). exit_status s = Some 0 \<and> errors s = [])"
proof (induction "length inp" arbitrary: k l inp c cs rule: less_induct)
  case less
  show ?case
  proof (cases inp)
    case Nil
    with less.prems show ?thesis by (auto simp: sieve.simps)
  next
    case (Cons p rest)
    from less.prems(2) [unfolded Cons] show ?thesis
    proof (cases rule: sieve_ConsE)
      case (alone evs)
      then show ?thesis using Cons by (auto dest: pre_read_None)
    next
      case (nopipe evs x ys)
      then show ?thesis using no_failureD(1) [OF less.prems(1), of k] by simp
    next
      case (nofork evs x ys n0 n1)
      then show ?thesis using no_failureD(2) [OF less.prems(1), of k] by simp
    next
      case (spawn evs x ys n0 n1 c' cs')
      from pre_read_Some [OF spawn(1)] obtain ms where ms:
        "rest = ms @ x # ys" "evs = map (\<lambda>x. Read l (Some x)) (ms @ [x])"
        "filter (\<lambda>x. x smod p \<noteq> 0) ms = []" "x smod p \<noteq> 0" by blast
      have flt: "filter (\<lambda>x. x smod p \<noteq> 0) rest = x # filter (\<lambda>x. x smod p \<noteq> 0) ys"
        using ms by simp
      have "length (x # filter (\<lambda>x. x smod p \<noteq> 0) ys) < length inp"
        unfolding flt [symmetric] Cons by (simp add: le_imp_less_Suc)
      from less.hyps [OF this less.prems(1) spawn(4)] have IH:
        "saw_eof c'" "length cs' = length (sift (x # filter (\<lambda>x. x smod p \<noteq> 0) ys)) - 1"
        "\<forall>s \<in> set (c' # cs'). exit_status s = Some 0 \<and> errors s = []"
        by blast+
      have rm: "room_of (slack w k) c' = None"
        using IH(1) by (rule room_of_eof)
      have c: "c = Read l (Some p) # Printf (prime_line p) # evs @
             [Pipe (Some (n0, n1)), Fork Parent, Close n0, Write n1 x True] @
             forward None l n1 p ys @ [Close l, Close n1, Wait, Exit 0]"
        using spawn(5) rm by simp
      have 1: "saw_eof c" using c forward_None [of l n1 p ys] by simp
      have 2: "exit_status c = Some 0" unfolding c by simp
      have 3: "errors c = []" using c ms(2) forward_None [of l n1 p ys] by simp
      have 4: "length cs = length (sift inp) - 1"
        using IH(2) spawn(6) Cons flt by simp
      have 5: "exit_status ([Fork Child, Close n1, Close l] @ c') = Some 0"
        using IH(3) by simp
      show ?thesis
        using 1 2 3 4 5 IH(3) spawn(6) by simp
    qed
  qed
qed

lemma main_no_failure:
  assumes "no_failure w"
  shows "stdout_of (main w argv) = map prime_line (sift [2..35])"
    and "exit_status (fst (main w argv)) = Some 0"
    and "writes (fst (main w argv)) = [2..35]"
    and "length (snd (main w argv)) = length (sift [2..35])"
    and "\<forall>t \<in> set (fst (main w argv) # snd (main w argv)). exit_status t = Some 0 \<and> errors t = []"
proof -
  obtain p0 p1 where pr: "pipe_res w 0 = Some (p0, p1)"
    using no_failureD(1) [OF assms, of 0] by auto
  have fk: "fork_ok w 0" using assms by (rule no_failureD)
  obtain c cs where sv: "sieve w 1 p0 [2..35] = (c, cs)"
    by (cases "sieve w 1 p0 [2..35]")
  have fd: "writes (feed_numbers None p1) = [2..35]"
    by (simp add: feed_numbers_def feed_from_None)
  from sieve_no_failure [OF assms sv] have eof: "saw_eof c"
    and len: "length cs = length (sift [2..35]) - 1" by blast+
  have m: "main w argv = ([Pipe (Some (p0, p1)), Fork Parent, Close p0] @
        map (\<lambda>v. Write p1 v True) [2..35] @ [Close p1, Wait, Exit 0],
        ([Fork Child, Close p1] @ c) # cs)"
    using pr fk sv fd eof
    by (simp add: main_def room_of_eof feed_numbers_def feed_from_None)
  have ne: "sift [2..35] \<noteq> []" by code_simp
  have "Suc (length cs) = length (sift [2..35])"
    using len ne by (cases "sift [2..35]") auto
  then show "stdout_of (main w argv) = map prime_line (sift [2..35])"
    using sieve_prints [OF sv, THEN conjunct2] unfolding m stdout_of_def by simp
  show "exit_status (fst (main w argv)) = Some 0" unfolding m by simp
  show "writes (fst (main w argv)) = [2..35]" unfolding m by simp
  show "length (snd (main w argv)) = length (sift [2..35])"
    unfolding m using len ne by simp
  from sieve_no_failure [OF assms sv]
  have all: "\<forall>s \<in> set (c # cs). exit_status s = Some 0 \<and> errors s = []" by blast
  then have "exit_status ([Fork Child, Close p1] @ c) = Some 0" by simp
  with all show "\<forall>t \<in> set (fst (main w argv) # snd (main w argv)).
      exit_status t = Some 0 \<and> errors t = []"
    unfolding m by simp
qed

subsection \<open>The first read of a stage\<close>

lemma first_read_child_pre: "child_pre pre \<Longrightarrow> first_read (pre @ c) = first_read c"
  by (induction pre rule: child_pre.induct) auto

lemma sieve_first_read: "sieve w k l (p # rest) = (c, cs) \<Longrightarrow> first_read c = Some (Some p)"
  by (erule sieve_ConsE) auto

lemma sieve_eof_first:
  assumes "first_read (fst (sieve w k l inp)) = Some None"
  shows "inp = []"
proof (cases inp)
  case Nil
  then show ?thesis .
next
  case (Cons p rest)
  obtain c cs where "sieve w k l (p # rest) = (c, cs)" by (cases "sieve w k l (p # rest)")
  with sieve_first_read [OF this] assms Cons show ?thesis by simp
qed

lemma main_first_read:
  assumes "i < length (snd (main w argv))"
  shows "first_read (snd (main w argv) ! i) = Some (Some (hd (streams [2..35] ! i)))"
proof -
  from main_stage [OF assms] obtain k l c' cs' pre where st:
    "i < length (streams [2..35])" "sieve w k l (streams [2..35] ! i) = (c', cs')"
    "snd (main w argv) ! i = pre @ c'" "child_pre pre"
    by blast
  from streams_nth [OF st(1)] obtain p rest where pr: "streams [2..35] ! i = p # rest"
    by (cases "streams [2..35] ! i") auto
  from sieve_first_read [OF st(2) [unfolded pr]] st(3,4) pr show ?thesis
    by (simp add: first_read_child_pre)
qed

lemma main_first_stage:
  assumes "pipe_res w 0 \<noteq> None" and "fork_ok w 0"
  shows "snd (main w argv) \<noteq> [] \<and> first_read (hd (snd (main w argv))) = Some (Some 2)"
proof -
  have up: "[2..35] = 2 # [3..35::int]" by (simp add: upto_rec1)
  show ?thesis
  proof (cases rule: main_cases [of w argv])
    case nopipe
    with assms show ?thesis by simp
  next
    case (nofork p0 p1)
    with assms show ?thesis by simp
  next
    case (fed p0 p1 c cs)
    from sieve_first_read [OF fed(3) [unfolded up]] fed(4) show ?thesis by simp
  next
    case (cut p0 p1 c cs n)
    from sieve_first_read [OF cut(3) [unfolded up]] cut(7) show ?thesis by simp
  qed
qed

subsection \<open>The descriptors of a run\<close>

text \<open>
  The discipline that keeps a run from blocking for ever, as a check of a trace against
  the descriptors held.  Process \<open>k\<close> may hold the ends of the pipe it created and the
  read end of the pipe before it; only while it is closing what it inherited may it
  still hold the write end of the pipe before it or the read end of the pipe before
  that.  It reads from the pipe before it and writes to its own pipe, whose read end it
  has closed by then; and it holds no write end when it waits.
\<close>

fun closing :: "event \<Rightarrow> bool" where
  "closing (Close f) = True"
| "closing (Fork Child) = True"
| "closing e = False"

fun fits :: "nat \<Rightarrow> bool \<Rightarrow> chan \<Rightarrow> bool" where
  "fits k cl Console = True"
| "fits k cl (PipeEnd j sd) =
     (j = k \<or> (Suc j = k \<and> sd = Rd) \<or> (cl \<and> (Suc j = k \<or> Suc (Suc j) = k)))"

fun is_wr :: "chan \<Rightarrow> bool" where
  "is_wr (PipeEnd j Wr) = True"
| "is_wr c = False"

fun ok_event :: "nat \<Rightarrow> fdtab \<Rightarrow> event \<Rightarrow> bool" where
  "ok_event k T (Read f v) =
     ((\<forall>c \<in> snd ` set T. fits k False c) \<and> 0 < k \<and> map_of T f = Some (PipeEnd (k - 1) Rd))"
| "ok_event k T (Write f v b) =
     ((\<forall>c \<in> snd ` set T. fits k False c) \<and> map_of T f = Some (PipeEnd k Wr) \<and>
      PipeEnd k Rd \<notin> snd ` set T)"
| "ok_event k T Wait = (\<forall>c \<in> snd ` set T. fits k False c \<and> \<not> is_wr c)"
| "ok_event k T e = (\<forall>c \<in> snd ` set T. fits k (closing e) c)"

text \<open>
  \<open>ok k T es pend\<close>: the calls \<open>es\<close> of process \<open>k\<close>, made from the descriptors \<open>T\<close>,
  keep to the discipline and end with \<open>exit\<close>; the same holds of the processes below
  it, whose traces are \<open>pend\<close>, each started at the \<open>fork\<close> of the one before with the
  descriptors its parent holds then.
\<close>

function (sequential) ok :: "nat \<Rightarrow> fdtab \<Rightarrow> event list \<Rightarrow> event list list \<Rightarrow> bool" where
  "ok k T [] pend = False"
| "ok k T (Exit st # es) pend = (ok_event k T (Exit st) \<and> es = [] \<and> pend = [])"
| "ok k T (Fork Parent # es) [] = False"
| "ok k T (Fork Parent # es) (c # cs) =
     (ok_event k T (Fork Parent) \<and> ok (Suc k) T c cs \<and> ok k T es [])"
| "ok k T (e # es) pend = (ok_event k T e \<and> ok k (fd_effect k e T) es pend)"
  by pat_completeness auto
termination
  by (relation "measure (\<lambda>(k, T, es, pend). length es + sum_list (map length pend) + length pend)")
    auto

lemma ok_reads:
  "ok_event k T (Read l None) \<Longrightarrow>
     ok k T (map (\<lambda>x. Read l (Some x)) xs @ es) pend = ok k T es pend"
  by (induction xs) auto

lemma ok_forward:
  "ok_event k T (Read l None) \<Longrightarrow> ok_event k T (Write f 0 True) \<Longrightarrow>
     ok k T (forward rm l f p ys @ es) pend = ok k T es pend"
  by (induction ys arbitrary: rm) auto

lemma ok_writes:
  "ok_event k T (Write f 0 True) \<Longrightarrow>
     ok k T (map (\<lambda>v. Write f v True) xs @ es) pend = ok k T es pend"
  by (induction xs) auto


lemma fresh_fdsD:
  "fresh_fds w \<Longrightarrow> pipe_res w k = Some (r, wr) \<Longrightarrow> r \<noteq> wr \<and> 2 < r \<and> 2 < wr"
  "fresh_fds w \<Longrightarrow> pipe_res w k = Some (l, l') \<Longrightarrow> pipe_res w (Suc k) = Some (r, wr) \<Longrightarrow>
     r \<noteq> l \<and> wr \<noteq> l"
  unfolding fresh_fds_def by blast+


text \<open>
  Every run of \<open>main\<close> keeps to the discipline: the child closes the write end it
  inherited before it reads, and the parent closes its own write end before it waits.
\<close>

lemma sieve_ok:
  assumes "fresh_fds w"
  shows "sieve w (Suc k) l inp = (c, cs) \<Longrightarrow> pipe_res w k = Some (l, l') \<Longrightarrow>
     ok (Suc k) ((l, PipeEnd k Rd) # std_fds) c cs"
proof (induction "length inp" arbitrary: k l l' inp c cs rule: less_induct)
  case less
  from fresh_fdsD(1) [OF assms less.prems(2)] have l: "2 < l" by simp
  show ?case
  proof (cases inp)
    case Nil
    with less.prems(1) l show ?thesis by (auto simp: sieve.simps std_fds_def)
  next
    case (Cons p rest)
    from less.prems(1) [unfolded Cons] show ?thesis
    proof (cases rule: sieve_cases)
      case alone
      then show ?thesis using l by (simp add: ok_reads std_fds_def)
    next
      case (nopipe ms x ys)
      then show ?thesis using l by (simp add: ok_reads std_fds_def)
    next
      case (nofork ms x ys n0 n1)
      from fresh_fdsD(1) [OF assms nofork(4)] fresh_fdsD(2) [OF assms less.prems(2) nofork(4)]
      show ?thesis using l nofork by (simp add: ok_reads std_fds_def)
    next
      case (spawn ms x ys n0 n1 c' cs')
      from fresh_fdsD(1) [OF assms spawn(4)] fresh_fdsD(2) [OF assms less.prems(2) spawn(4)]
      have n: "n0 \<noteq> n1" "2 < n0" "2 < n1" "n0 \<noteq> l" "n1 \<noteq> l" by simp_all
      have "length (filter (\<lambda>x. x smod p \<noteq> 0) rest) < length inp"
        unfolding Cons by (simp add: le_imp_less_Suc)
      from less.hyps [OF this spawn(6) spawn(4)]
      have IH: "ok (Suc (Suc k)) ((n0, PipeEnd (Suc k) Rd) # std_fds) c' cs'" .
      show ?thesis
        using l n IH unfolding spawn(8,9)
        by (simp add: ok_reads ok_forward std_fds_def)
    qed
  qed
qed

lemma main_ok:
  assumes "fresh_fds w"
  shows "ok 0 std_fds (fst (main w argv)) (snd (main w argv))"
proof (cases rule: main_cases [of w argv])
  case nopipe
  then show ?thesis by (simp add: std_fds_def)
next
  case (nofork p0 p1)
  from fresh_fdsD(1) [OF assms nofork(1)] nofork show ?thesis by (simp add: std_fds_def)
next
  case (fed p0 p1 c cs)
  from fresh_fdsD(1) [OF assms fed(1)] have p: "p0 \<noteq> p1" "2 < p0" "2 < p1" by simp_all
  from sieve_ok [OF assms fed(3) [unfolded One_nat_def] fed(1)]
  have "ok (Suc 0) ((p0, PipeEnd 0 Rd) # std_fds) c cs" .
  then show ?thesis using p unfolding fed(4)
    by (simp add: ok_writes std_fds_def)
next
  case (cut p0 p1 c cs n)
  from fresh_fdsD(1) [OF assms cut(1)] have p: "p0 \<noteq> p1" "2 < p0" "2 < p1" by simp_all
  from sieve_ok [OF assms cut(3) [unfolded One_nat_def] cut(1)]
  have "ok (Suc 0) ((p0, PipeEnd 0 Rd) # std_fds) c cs" .
  then show ?thesis using p unfolding cut(7)
    by (simp add: ok_writes std_fds_def)
qed


subsection \<open>Runs of the kernel\<close>

text \<open>
  What holds in every state of a run: the processes form a chain, each the child of the
  one before; the rest of the trace of a running process keeps to the discipline from
  the descriptors it holds now; a process that has exited holds nothing and has
  performed its whole trace.
\<close>

definition pend_of :: "kstate \<Rightarrow> nat \<Rightarrow> event list list" where
  "pend_of s i = (if Suc i = length (procs s) then pending s else [])"

definition run_inv :: "kstate \<Rightarrow> bool" where
  "run_inv s = (procs s \<noteq> [] \<and> (\<forall>i < length (procs s).
      parent (procs s ! i) = (if i = 0 then None else Some (i - 1)) \<and>
      (if status (procs s ! i) = Running
       then ok i (fds (procs s ! i)) (script (procs s ! i)) (pend_of s i)
       else fds (procs s ! i) = [] \<and> script (procs s ! i) = [] \<and> pend_of s i = [])))"

lemma reap_length [simp]: "length (reap i ps) = length ps"
  by (induction ps) auto

lemma reap_nth:
  "j < length ps \<Longrightarrow>
     script (reap i ps ! j) = script (ps ! j) \<and> fds (reap i ps ! j) = fds (ps ! j) \<and>
     parent (reap i ps ! j) = parent (ps ! j) \<and>
     (status (reap i ps ! j) = Running \<longleftrightarrow> status (ps ! j) = Running)"
proof (induction ps arbitrary: j)
  case Nil
  then show ?case by simp
next
  case (Cons q qs)
  show ?case
  proof (cases j)
    case 0
    then show ?thesis by (cases "status q") auto
  next
    case (Suc j')
    with Cons show ?thesis by auto
  qed
qed

lemma kstepE:
  assumes "kstep cap s i = Some s'"
  obtains (fork) es c cs where "i < length (procs s)" "status (procs s ! i) = Running"
      "script (procs s ! i) = Fork Parent # es" "pending s = c # cs"
      "procs s' = (procs s @
           [\<lparr>script = c, fds = fds (procs s ! i), parent = Some i, status = Running\<rparr>])
         [i := (procs s ! i)\<lparr>script := es, status := Running\<rparr>]"
      "pending s' = cs" "out s' = out s"
  | (other) e es ps where "i < length (procs s)" "status (procs s ! i) = Running"
      "script (procs s ! i) = e # es" "e \<noteq> Fork Parent" "returns cap s i e"
      "length ps = length (procs s)"
      "\<And>j. j < length ps \<Longrightarrow>
          script (ps ! j) = script (procs s ! j) \<and> fds (ps ! j) = fds (procs s ! j) \<and>
          parent (ps ! j) = parent (procs s ! j) \<and>
          (status (ps ! j) = Running \<longleftrightarrow> status (procs s ! j) = Running)"
      "procs s' = ps[i := (ps ! i)\<lparr>script := es, fds := fd_effect i e (fds (ps ! i)),
                                   status := after e\<rparr>]"
      "pending s' = pending s" "out s' = out s @ prints [e]"
proof -
  from assms have i: "i < length (procs s)" and run: "status (procs s ! i) = Running"
    by (auto simp: kstep_def split: if_splits)
  from assms i run obtain e es where sc: "script (procs s ! i) = e # es"
    by (cases "script (procs s ! i)") (auto simp: kstep_def)
  from assms i run sc have ret: "returns cap s i e"
    by (auto simp: kstep_def split: if_splits)
  from assms i run sc ret obtain s0 where k: "kernel cap i e s = Some s0"
    and s': "s' = s0\<lparr>procs := (procs s0)[i := (procs s0 ! i)
                     \<lparr>script := es, fds := fd_effect i e (fds (procs s0 ! i)),
                      status := after e\<rparr>]\<rparr>"
    by (auto simp: kstep_def split: option.splits)
  show ?thesis
  proof (cases "e = Fork Parent")
    case True
    with k obtain c cs where pd: "pending s = c # cs"
      and s0: "s0 = s\<lparr>procs := procs s @
            [\<lparr>script = c, fds = fds (procs s ! i), parent = Some i, status = Running\<rparr>],
          pending := cs\<rparr>"
      by (cases "pending s") auto
    show ?thesis
      using i run sc True pd s0 s'
      by (intro fork [of es c cs]) (simp_all add: nth_append)
  next
    case False
    have *: "length (procs s0) = length (procs s) \<and>
        (\<forall>j < length (procs s0).
          script (procs s0 ! j) = script (procs s ! j) \<and> fds (procs s0 ! j) = fds (procs s ! j) \<and>
          parent (procs s0 ! j) = parent (procs s ! j) \<and>
          (status (procs s0 ! j) = Running \<longleftrightarrow> status (procs s ! j) = Running)) \<and>
        pending s0 = pending s \<and> out s0 = out s @ prints [e]"
      using k False
      by (cases "(cap, i, e, s)" rule: kernel.cases)
        (auto simp: reap_nth split: option.splits chan.splits side.splits if_splits)
    show ?thesis
      using i run sc False ret * s'
      by (intro other [of e es "procs s0"]) simp_all
  qed
qed


lemma ok_hd:
  assumes "ok k T sc pend"
  obtains e es where "sc = e # es" "ok_event k T e" "e = Fork Parent \<Longrightarrow> pend \<noteq> []"
    "\<And>st. e = Exit st \<Longrightarrow> pend = []"
    "(\<forall>st. e \<noteq> Exit st) \<Longrightarrow> e \<noteq> Fork Parent \<Longrightarrow> ok k (fd_effect k e T) es pend"
    "\<And>c cs. e = Fork Parent \<Longrightarrow> pend = c # cs \<Longrightarrow> ok (Suc k) T c cs \<and> ok k T es []"
  using assms by (cases "(k, T, sc, pend)" rule: ok.cases) auto

lemma ok_event_fits: "ok_event k T e \<Longrightarrow> c \<in> snd ` set T \<Longrightarrow> fits k (closing e) c"
  by (cases "(k, T, e)" rule: ok_event.cases) auto

lemma run_inv_start: "ok 0 std_fds (fst r) (snd r) \<Longrightarrow> run_inv (start r)"
  by (simp add: run_inv_def start_def pend_of_def)

lemma run_inv_step:
  assumes "run_inv s" and "kstep cap s i = Some s'"
  shows "run_inv s'"
  using assms(2)
proof (cases rule: kstepE)
  case (fork es c cs)
  let ?n = "length (procs s)"
  let ?p = "procs s ! i"
  from assms(1) fork(1,2) have ok: "ok i (fds ?p) (script ?p) (pend_of s i)"
    by (auto simp: run_inv_def)
  have last: "Suc i = ?n"
  proof (rule ccontr)
    assume "Suc i \<noteq> ?n"
    then have "pend_of s i = []" by (simp add: pend_of_def)
    with ok fork(3) show False by simp
  qed
  then have pd: "pend_of s i = c # cs" using fork(4) by (simp add: pend_of_def)
  from ok [unfolded fork(3) pd] have okc: "ok (Suc i) (fds ?p) c cs" and oke: "ok i (fds ?p) es []"
    by simp_all
  have len: "length (procs s') = Suc ?n" using fork(5) by simp
  have "parent (procs s' ! j) = (if j = 0 then None else Some (j - 1)) \<and>
      (if status (procs s' ! j) = Running
       then ok j (fds (procs s' ! j)) (script (procs s' ! j)) (pend_of s' j)
       else fds (procs s' ! j) = [] \<and> script (procs s' ! j) = [] \<and> pend_of s' j = [])"
    if j: "j < length (procs s')" for j
  proof -
    consider "j = ?n" | "j = i" | "j < ?n" "j \<noteq> i" using j len by linarith
    then show ?thesis
    proof cases
      case 1
      then have "procs s' ! j = \<lparr>script = c, fds = fds ?p, parent = Some i, status = Running\<rparr>"
        using fork(5) last by (simp add: nth_append)
      moreover have "pend_of s' j = cs" using 1 len fork(6) by (simp add: pend_of_def)
      ultimately show ?thesis using okc 1 last by auto
    next
      case 2
      then have "procs s' ! j = ?p\<lparr>script := es, status := Running\<rparr>"
        using fork(1,5) by (simp add: nth_append)
      moreover have "pend_of s' j = []" using 2 len last by (simp add: pend_of_def)
      moreover have "parent ?p = (if i = 0 then None else Some (i - 1))"
        using assms(1) fork(1) by (auto simp: run_inv_def)
      ultimately show ?thesis using oke 2 by simp
    next
      case 3
      then have "procs s' ! j = procs s ! j"
        using fork(5) by (simp add: nth_append)
      moreover have "pend_of s' j = []" "pend_of s j = []"
        using 3 len last by (simp_all add: pend_of_def)
      ultimately show ?thesis using assms(1) 3(1) by (auto simp: run_inv_def)
    qed
  qed
  moreover have "procs s' \<noteq> []" using len by auto
  ultimately show ?thesis by (simp add: run_inv_def)
next
  case (other e es ps)
  let ?p = "procs s ! i"
  from assms(1) other(1,2) have ok: "ok i (fds ?p) (script ?p) (pend_of s i)"
    and par: "parent ?p = (if i = 0 then None else Some (i - 1))"
    by (auto simp: run_inv_def)
  have len: "length (procs s') = length (procs s)" using other(6,8) by simp
  have pd: "pend_of s' j = pend_of s j" for j
    using len other(9) by (simp add: pend_of_def)
  have "parent (procs s' ! j) = (if j = 0 then None else Some (j - 1)) \<and>
      (if status (procs s' ! j) = Running
       then ok j (fds (procs s' ! j)) (script (procs s' ! j)) (pend_of s' j)
       else fds (procs s' ! j) = [] \<and> script (procs s' ! j) = [] \<and> pend_of s' j = [])"
    if j: "j < length (procs s')" for j
  proof (cases "j = i")
    case True
    have p': "procs s' ! j = (ps ! i)\<lparr>script := es, fds := fd_effect i e (fds ?p), status := after e\<rparr>"
      using True other(1,6,7,8) by simp
    have pp: "parent (ps ! i) = parent ?p" using other(1,6,7) by simp
    show ?thesis
    proof (cases "\<exists>st. e = Exit st")
      case ex: True
      with ok [unfolded other(3)] have "es = []" "pend_of s i = []" by auto
      with ex show ?thesis using p' pp par True pd by auto
    next
      case False
      then have "after e = Running" by (cases e) auto
      moreover from ok [unfolded other(3)] False other(4)
      have "ok i (fd_effect i e (fds ?p)) es (pend_of s i)"
        by (cases "(i, fds ?p, e # es, pend_of s i)" rule: ok.cases) auto
      ultimately show ?thesis using p' pp par True pd by simp
    qed
  next
    case False
    then have "procs s' ! j = ps ! j" using other(8) by simp
    moreover have "j < length ps" "j < length (procs s)" using j len other(6) by simp_all
    ultimately show ?thesis
      using other(7) [of j] assms(1) pd by (auto simp: run_inv_def)
  qed
  moreover have "procs s' \<noteq> []" using len assms(1) by (auto simp: run_inv_def)
  ultimately show ?thesis by (simp add: run_inv_def)
qed

lemma reachable_inv:
  "reachable cap r s \<Longrightarrow> ok 0 std_fds (fst r) (snd r) \<Longrightarrow> run_inv s"
  by (induction rule: reachable.induct) (auto intro: run_inv_start run_inv_step)



text \<open>
  No run blocks for ever.  Take a process that waits in \<open>read\<close>: the pipe before it is
  empty and its write end is open.  Who holds that end is closing it, or is the writer
  of the pipe, which is not waiting for a child and finds room in the pipe: it can make
  its call unless it waits in \<open>read\<close> itself, one pipe higher.  The driver does not
  read.  The lowest running process, for its part, never waits in \<open>write\<close> or \<open>wait\<close>:
  nobody below it runs.
\<close>

lemma kstep_SomeI:
  assumes "i < length (procs s)" and "status (procs s ! i) = Running"
    and "script (procs s ! i) = e # es" and "returns cap s i e"
    and "e = Fork Parent \<Longrightarrow> pending s \<noteq> []"
  shows "\<exists>s'. kstep cap s i = Some s'"
proof -
  have "\<exists>s0. kernel cap i e s = Some s0"
    using assms(5) by (cases "(cap, i, e, s)" rule: kernel.cases) (auto split: list.splits)
  then show ?thesis using assms(1-4) by (auto simp: kstep_def)
qed

lemma run_inv_running:
  assumes "run_inv s" and "i < length (procs s)" and "status (procs s ! i) = Running"
  obtains e es where "script (procs s ! i) = e # es" "ok_event i (fds (procs s ! i)) e"
    "e = Fork Parent \<Longrightarrow> pending s \<noteq> []"
proof -
  from assms have "ok i (fds (procs s ! i)) (script (procs s ! i)) (pend_of s i)"
    by (auto simp: run_inv_def)
  then obtain e es where "script (procs s ! i) = e # es" "ok_event i (fds (procs s ! i)) e"
    "e = Fork Parent \<Longrightarrow> pend_of s i \<noteq> []"
    by (auto elim: ok_hd)
  moreover have "pend_of s i \<noteq> [] \<Longrightarrow> pending s \<noteq> []"
    by (auto simp: pend_of_def split: if_splits)
  ultimately show ?thesis by (intro that [of e es]) auto
qed

lemma holder:
  assumes "run_inv s" and "q \<in> set (procs s)" and "PipeEnd m sd \<in> snd ` set (fds q)"
  obtains j e es where "j < length (procs s)" "q = procs s ! j" "status q = Running"
    "script q = e # es" "ok_event j (fds q) e" "fits j (closing e) (PipeEnd m sd)"
    "e = Fork Parent \<Longrightarrow> pending s \<noteq> []"
proof -
  from assms(2) obtain j where j: "j < length (procs s)" "q = procs s ! j"
    by (auto simp: in_set_conv_nth)
  have run: "status q = Running"
  proof (rule ccontr)
    assume "status q \<noteq> Running"
    with assms(1) j have "fds q = []" by (auto simp: run_inv_def)
    with assms(3) show False by simp
  qed
  from run_inv_running [OF assms(1) j(1) run [unfolded j(2)]] obtain e es where
    e: "script (procs s ! j) = e # es" "ok_event j (fds (procs s ! j)) e"
    "e = Fork Parent \<Longrightarrow> pending s \<noteq> []"
    by blast
  have "fits j (closing e) (PipeEnd m sd)"
    by (rule ok_event_fits [OF e(2)]) (use assms(3) j(2) in simp)
  with j run e show ?thesis by (intro that [of j e es]) simp_all
qed

lemma closing_step:
  assumes "i < length (procs s)" and "status (procs s ! i) = Running"
    and "script (procs s ! i) = e # es" and "closing e"
  shows "\<exists>s'. kstep cap s i = Some s'"
proof (rule kstep_SomeI [OF assms(1-3)])
  show "returns cap s i e" using assms(4) by (cases e rule: closing.cases) auto
  show "e = Fork Parent \<Longrightarrow> pending s \<noteq> []" using assms(4) by auto
qed

lemma writer_goes_on:
  assumes "run_inv s" and "0 < cap"
  shows "j < length (procs s) \<Longrightarrow> status (procs s ! j) = Running \<Longrightarrow>
     script (procs s ! j) = e # es \<Longrightarrow> ((\<forall>f v. e \<noteq> Read f v) \<longrightarrow> returns cap s j e) \<Longrightarrow>
     \<exists>i s'. kstep cap s i = Some s'"
proof (induction j arbitrary: e es rule: less_induct)
  case (less j)
  from run_inv_running [OF assms(1) less.prems(1,2)] less.prems(3)
  have oe: "ok_event j (fds (procs s ! j)) e" and fk: "e = Fork Parent \<Longrightarrow> pending s \<noteq> []"
    by auto
  show ?case
  proof (cases "returns cap s j e")
    case True
    from kstep_SomeI [OF less.prems(1,2,3) True fk] show ?thesis by blast
  next
    case False
    with less.prems(4) obtain f v where e: "e = Read f v" by blast
    from oe e have j0: "0 < j" and mp: "map_of (fds (procs s ! j)) f = Some (PipeEnd (j - 1) Rd)"
      by simp_all
    from False e mp have lv: "level s (j - 1) = 0" and op: "open_end s (PipeEnd (j - 1) Wr)"
      by simp_all
    from op obtain q where q: "q \<in> set (procs s)" "PipeEnd (j - 1) Wr \<in> snd ` set (fds q)"
      by (auto simp: open_end_def)
    from holder [OF assms(1) q] obtain m e' es' where m: "m < length (procs s)" "q = procs s ! m"
      "status q = Running" "script q = e' # es'" "ok_event m (fds q) e'"
      "fits m (closing e') (PipeEnd (j - 1) Wr)" "e' = Fork Parent \<Longrightarrow> pending s \<noteq> []"
      by blast
    show ?thesis
    proof (cases "closing e'")
      case True
      from closing_step [OF m(1) m(3) [unfolded m(2)] m(4) [unfolded m(2)] True]
      show ?thesis by blast
    next
      case False
      with m(6) have mj: "j - 1 = m" by simp
      with j0 have lt: "m < j" by simp
      have "(\<forall>f v. e' \<noteq> Read f v) \<longrightarrow> returns cap s m e'"
      proof
        assume nr: "\<forall>f v. e' \<noteq> Read f v"
        show "returns cap s m e'"
        proof (cases e')
          case (Write f'' v'' b'')
          with m(5) have "map_of (fds (procs s ! m)) f'' = Some (PipeEnd m Wr)"
            using m(2) by simp
          then show ?thesis using Write lv mj assms(2) by simp
        next
          case Wait
          with m(5) q(2) mj show ?thesis by fastforce
        qed (use nr in simp_all)
      qed
      from less.IH [OF lt m(1) m(3) [unfolded m(2)] m(4) [unfolded m(2)] this]
      show ?thesis .
    qed
  qed
qed

lemma progress:
  assumes "run_inv s" and "0 < cap" and "\<not> all_exited s"
  shows "\<exists>i s'. kstep cap s i = Some s'"
proof -
  define R where "R = {i. i < length (procs s) \<and> status (procs s ! i) = Running}"
  have fin: "finite R" by (simp add: R_def)
  from assms(3) have ne: "R \<noteq> {}"
    by (auto simp: all_exited_def R_def in_set_conv_nth)
  define d where "d = Max R"
  have dR: "d \<in> R" unfolding d_def using fin ne by (rule Max_in)
  have dmax: "i \<le> d" if "i \<in> R" for i unfolding d_def using fin that by (rule Max_ge)
  from dR have d: "d < length (procs s)" "status (procs s ! d) = Running"
    by (simp_all add: R_def)
  from run_inv_running [OF assms(1) d] obtain e es where e: "script (procs s ! d) = e # es"
    "ok_event d (fds (procs s ! d)) e" by blast
  have "(\<forall>f v. e \<noteq> Read f v) \<longrightarrow> returns cap s d e"
  proof
    assume nr: "\<forall>f v. e \<noteq> Read f v"
    show "returns cap s d e"
    proof (cases e)
      case (Write f' v' b')
      with e(2) have mp: "map_of (fds (procs s ! d)) f' = Some (PipeEnd d Wr)"
        and nr: "PipeEnd d Rd \<notin> snd ` set (fds (procs s ! d))" by simp_all
      have "\<not> open_end s (PipeEnd d Rd)"
      proof
        assume "open_end s (PipeEnd d Rd)"
        then obtain q where q: "q \<in> set (procs s)" "PipeEnd d Rd \<in> snd ` set (fds q)"
          by (auto simp: open_end_def)
        from holder [OF assms(1) q] obtain m e' where m: "m < length (procs s)" "q = procs s ! m"
          "status q = Running" "fits m (closing e') (PipeEnd d Rd)"
          by blast
        from m(1,2,3) have "m \<in> R" by (simp add: R_def)
        then have "m \<le> d" by (rule dmax)
        with m(4) have "m = d" by auto
        with q(2) m(2) nr show False by simp
      qed
      with Write mp show ?thesis by simp
    next
      case Wait
      have "\<forall>q \<in> set (procs s). parent q = Some d \<longrightarrow> status q \<noteq> Running"
      proof (intro ballI impI)
        fix q assume q: "q \<in> set (procs s)" "parent q = Some d"
        then obtain m where m: "m < length (procs s)" "q = procs s ! m"
          by (auto simp: in_set_conv_nth)
        with assms(1) have "parent q = (if m = 0 then None else Some (m - 1))"
          by (auto simp: run_inv_def)
        with q(2) have md: "m = Suc d" by (auto split: if_splits)
        show "status q \<noteq> Running"
        proof
          assume "status q = Running"
          with m have "m \<in> R" by (simp add: R_def)
          then have "m \<le> d" by (rule dmax)
          with md show False by simp
        qed
      qed
      with Wait show ?thesis by simp
    qed (use nr in simp_all)
  qed
  from writer_goes_on [OF assms(1,2) d e(1) this] show ?thesis .
qed



text \<open>
  Every step takes one call from the traces.
\<close>

lemma sum_list_upd:
  "i < length ps \<Longrightarrow>
     sum_list (map f (ps[i := q])) + f (ps ! i) = sum_list (map f ps) + (f q :: nat)"
proof (induction ps arbitrary: i)
  case Nil
  then show ?case by simp
next
  case (Cons a ps)
  show ?case
  proof (cases i)
    case 0
    then show ?thesis by simp
  next
    case (Suc j)
    with Cons.prems have "j < length ps" by simp
    from Cons.IH [OF this] Suc show ?thesis by simp
  qed
qed

lemma steps_step:
  assumes "kstep cap s i = Some s'"
  shows "Suc (steps_left s') = steps_left s"
  using assms
proof (cases rule: kstepE)
  case (fork es c cs)
  let ?f = "\<lambda>q. length (script q)"
  let ?ch = "\<lparr>script = c, fds = fds (procs s ! i), parent = Some i, status = Running\<rparr>"
  have i: "i < length (procs s @ [?ch])" using fork(1) by simp
  from sum_list_upd [OF i, of ?f "(procs s ! i)\<lparr>script := es, status := Running\<rparr>"]
  have "sum_list (map ?f (procs s')) + Suc (length es) =
      sum_list (map ?f (procs s)) + length c + length es"
    using fork(1,3,5) by (simp add: nth_append)
  then show ?thesis using fork(4,6) by (simp add: steps_left_def)
next
  case (other e es ps)
  let ?f = "\<lambda>q. length (script q)"
  have eq: "map ?f ps = map ?f (procs s)"
    by (rule nth_equalityI) (use other(6,7) in simp_all)
  have i: "i < length ps" using other(1,6) by simp
  from sum_list_upd [OF i, of ?f
      "(ps ! i)\<lparr>script := es, fds := fd_effect i e (fds (ps ! i)), status := after e\<rparr>"]
  have "sum_list (map ?f (procs s')) + Suc (length es) = sum_list (map ?f (procs s)) + length es"
    using other(3,7,8) i eq by simp
  then show ?thesis using other(9) by (simp add: steps_left_def)
qed

lemma reachable_steps: "reachable cap r s \<Longrightarrow> steps_left s \<le> steps_left (start r)"
proof (induction rule: reachable.induct)
  case init
  then show ?case by simp
next
  case (step s i s')
  from steps_step [OF step.hyps(2)] step.IH show ?case by simp
qed

lemma sum_list_bound: "(\<And>x. x \<in> set xs \<Longrightarrow> f x \<le> (b :: nat)) \<Longrightarrow> sum_list (map f xs) \<le> length xs * b"
proof (induction xs)
  case Nil
  then show ?case by simp
next
  case (Cons a xs)
  from Cons.prems [of a] Cons.IH Cons.prems show ?case by (simp add: add_mono)
qed

lemma main_steps: "steps_left (start (main w argv)) \<le> 2726"
proof -
  have d: "length (fst (main w argv)) \<le> 40" using driver_bounds [of w argv] by simp
  have n: "length (snd (main w argv)) \<le> 34"
    using main_length [of w argv] streams_length [of "[2..35]"] by simp
  have "length x \<le> 79" if "x \<in> set (snd (main w argv))" for x
  proof -
    from that obtain i where i: "i < length (snd (main w argv))" "x = snd (main w argv) ! i"
      by (auto simp: in_set_conv_nth)
    from main_stage_facts(1,7) [OF i(1)] streams_nth_length [of i "[2..35]"] i(2)
    show ?thesis by simp
  qed
  then have "sum_list (map length (snd (main w argv))) \<le> length (snd (main w argv)) * 79"
    by (rule sum_list_bound)
  also have "\<dots> \<le> 34 * 79" using n by simp
  finally show ?thesis using d by (simp add: steps_left_def start_def)
qed

lemma first_step_reachable:
  "reachable cap r s \<Longrightarrow> first_step cap s js = Some s' \<Longrightarrow> reachable cap r s'"
  by (induction js) (auto split: option.splits intro: reachable.step)

lemma run_reachable: "reachable cap r s \<Longrightarrow> reachable cap r (run cap n s)"
  by (induction n arbitrary: s) (auto split: option.splits intro: first_step_reachable)

lemma xv6_fresh: "fresh_fds xv6_world"
  by (auto simp: fresh_fds_def xv6_world_def split: if_splits)


lemma run_inv_done:
  assumes "run_inv s" and "all_exited s"
  shows "steps_left s = 0"
proof -
  have sc: "script q = []" if "q \<in> set (procs s)" for q
  proof -
    from that obtain i where "i < length (procs s)" "q = procs s ! i"
      by (auto simp: in_set_conv_nth)
    with assms show ?thesis by (auto simp: run_inv_def all_exited_def)
  qed
  from assms(1) have ne: "procs s \<noteq> []" by (simp add: run_inv_def)
  then have l: "length (procs s) - 1 < length (procs s)" by simp
  with assms have "pend_of s (length (procs s) - 1) = []"
    by (auto simp: run_inv_def all_exited_def)
  then have "pending s = []" using ne by (simp add: pend_of_def)
  then show ?thesis using sc by (simp add: steps_left_def)
qed



text \<open>
  The \<open>close\<close> of the inherited write end is what lets a stage see the end of its
  input.  Were the traces of the stages without it (their second call), the run in
  which nothing fails would come to a state in which every stage waits in \<open>read\<close> and the
  driver in \<open>wait\<close>, and no call returns.
\<close>

lemma leaked_write_end_blocks:
  "\<not> all_exited (run 1 400 (start (fst (main xv6_world [''primes'']),
       map (\<lambda>t. hd t # drop 2 t) (snd (main xv6_world [''primes'']))))) \<and>
   first_step 1 (run 1 400 (start (fst (main xv6_world [''primes'']),
       map (\<lambda>t. hd t # drop 2 t) (snd (main xv6_world [''primes'']))))) [0..<12] = None"
  by code_simp

lemma fork_fails_fresh: "fresh_fds (fork_fails_at n)"
  by (auto simp: fresh_fds_def fork_fails_at_def xv6_world_def split: if_splits)

subsection \<open>The console\<close>

text \<open>
  The lines reach the console in the order of the chain, whatever the order in which
  the processes run: a process prints nothing after it forked, so that all the lines
  still to come are those of the newest process and of the processes not yet created.
\<close>

fun forks_last :: "event list \<Rightarrow> bool" where
  "forks_last [] = True"
| "forks_last (Fork Parent # es) = (prints es = [])"
| "forks_last (e # es) = forks_last es"

lemma forks_last_quiet: "prints es = [] \<Longrightarrow> forks_last es"
  by (induction es rule: forks_last.induct) (auto split: if_splits)

lemma forks_last_append: "Fork Parent \<notin> set a \<Longrightarrow> forks_last (a @ Fork Parent # b) = (prints b = [])"
  by (induction a rule: forks_last.induct) auto

lemma forks_last_no_fork: "Fork Parent \<notin> set a \<Longrightarrow> forks_last a"
  by (induction a rule: forks_last.induct) auto

lemma forks_last_tl: "forks_last (e # es) \<Longrightarrow> forks_last es"
  by (cases "(e # es)" rule: forks_last.cases) (auto intro: forks_last_quiet)

definition console_inv :: "event list \<times> event list list \<Rightarrow> kstate \<Rightarrow> bool" where
  "console_inv r s =
     (out s @ prints (script (last (procs s))) @ concat (map prints (pending s)) = stdout_of r \<and>
      (\<forall>j. Suc j < length (procs s) \<longrightarrow> prints (script (procs s ! j)) = []) \<and>
      (\<forall>q \<in> set (procs s). forks_last (script q)) \<and> (\<forall>c \<in> set (pending s). forks_last c))"

lemma console_start:
  "forks_last (fst r) \<Longrightarrow> \<forall>c \<in> set (snd r). forks_last c \<Longrightarrow> console_inv r (start r)"
  by (simp add: console_inv_def start_def stdout_of_def)

lemma console_step:
  assumes "run_inv s" and "console_inv r s" and "kstep cap s i = Some s'"
  shows "console_inv r s'"
  using assms(3)
proof (cases rule: kstepE)
  case (fork es c cs)
  let ?n = "length (procs s)"
  let ?p = "procs s ! i"
  let ?ch = "\<lparr>script = c, fds = fds ?p, parent = Some i, status = Running\<rparr>"
  from assms(1) fork(1,2) have ok: "ok i (fds ?p) (script ?p) (pend_of s i)"
    by (auto simp: run_inv_def)
  have last: "Suc i = ?n"
  proof (rule ccontr)
    assume "Suc i \<noteq> ?n"
    then have "pend_of s i = []" by (simp add: pend_of_def)
    with ok fork(3) show False by simp
  qed
  have ne: "procs s \<noteq> []" using fork(1) by auto
  have "length (procs s) - 1 = i" using last by arith
  then have li: "last (procs s) = ?p" using ne by (simp add: last_conv_nth)
  have "forks_last (script ?p)" using assms(2) fork(1) by (auto simp: console_inv_def)
  then have es: "prints es = []" using fork(3) by simp
  have len: "length (procs s') = Suc ?n" using fork(5) by simp
  have l': "last (procs s') = ?ch"
    using fork(1,5) by (simp add: last_conv_nth nth_append)
  have 1: "out s' @ prints (script (last (procs s'))) @ concat (map prints (pending s')) = stdout_of r"
    using assms(2) li fork(3,4,6,7) l' es by (simp add: console_inv_def)
  have 2: "prints (script (procs s' ! j)) = []" if "Suc j < length (procs s')" for j
  proof (cases "j = i")
    case True
    then show ?thesis using fork(1,5) es by (simp add: nth_append)
  next
    case False
    with that len last have j: "Suc j < ?n" by simp
    then have "procs s' ! j = procs s ! j" using False fork(5) by (simp add: nth_append)
    with assms(2) j show ?thesis by (simp add: console_inv_def)
  qed
  have 3: "forks_last (script q)" if "q \<in> set (procs s')" for q
  proof -
    from that obtain j where j: "j < length (procs s')" "q = procs s' ! j"
      by (auto simp: in_set_conv_nth)
    consider "j = ?n" | "j = i" | "j < ?n" "j \<noteq> i" using j(1) len by linarith
    then show ?thesis
    proof cases
      case 1
      then have "q = ?ch" using j(2) fork(5) last by (simp add: nth_append)
      then show ?thesis using assms(2) fork(4) by (simp add: console_inv_def)
    next
      case 2
      then have "script q = es" using j(2) fork(1,5) by (simp add: nth_append)
      then show ?thesis using es by (simp add: forks_last_quiet)
    next
      case 3
      then have "q = procs s ! j" using j(2) fork(5) by (simp add: nth_append)
      then show ?thesis using assms(2) 3(1) by (simp add: console_inv_def)
    qed
  qed
  have 4: "\<forall>c \<in> set (pending s'). forks_last c"
    using assms(2) fork(4,6) by (simp add: console_inv_def)
  from 1 2 3 4 show ?thesis by (simp add: console_inv_def)
next
  case (other e es ps)
  let ?n = "length (procs s)"
  let ?p' = "(ps ! i)\<lparr>script := es, fds := fd_effect i e (fds (ps ! i)), status := after e\<rparr>"
  have ne: "procs s \<noteq> []" using other(1) by auto
  have len: "length (procs s') = ?n" using other(6,8) by simp
  have ne': "procs s' \<noteq> []" using len ne by auto
  have nth: "procs s' ! j = (if j = i then ?p' else ps ! j)" if "j < ?n" for j
    using that other(6,8) by simp
  have scr: "script (procs s' ! j) = (if j = i then es else script (procs s ! j))" if "j < ?n" for j
    using that nth [OF that] other(6,7) by simp
  have forks_last: "forks_last (script (procs s ! j))" if "j < ?n" for j
    using assms(2) that by (simp add: console_inv_def)
  have 1: "out s' @ prints (script (last (procs s'))) @ concat (map prints (pending s')) = stdout_of r"
  proof (cases "Suc i = ?n")
    case True
    then have "length (procs s) - 1 = i" by arith
    then have "script (last (procs s')) = es" "script (last (procs s)) = e # es"
      using ne ne' len scr [of i] other(1,3) by (simp_all add: last_conv_nth)
    then show ?thesis using assms(2) other(9,10) by (cases e) (simp_all add: console_inv_def)
  next
    case False
    with other(1) have "Suc i < ?n" by simp
    with assms(2) other(3) have "prints (e # es) = []" by (auto simp: console_inv_def)
    then have "prints [e] = []" by (cases e) auto
    moreover have "script (last (procs s')) = script (last (procs s))"
      using ne ne' len scr [of "?n - 1"] False by (auto simp: last_conv_nth)
    ultimately show ?thesis using assms(2) other(9,10) by (simp add: console_inv_def)
  qed
  have 2: "prints (script (procs s' ! j)) = []" if "Suc j < length (procs s')" for j
  proof -
    from that len have j: "Suc j < ?n" by simp
    with assms(2) have "prints (script (procs s ! j)) = []" by (simp add: console_inv_def)
    then show ?thesis using scr [of j] j other(3) by (cases e) (auto split: if_splits)
  qed
  have 3: "forks_last (script q)" if "q \<in> set (procs s')" for q
  proof -
    from that obtain j where j: "j < length (procs s')" "q = procs s' ! j"
      by (auto simp: in_set_conv_nth)
    then have "script q = (if j = i then es else script (procs s ! j))"
      using scr [of j] len by simp
    moreover have "forks_last es" using forks_last [OF other(1)] other(3) by (auto dest: forks_last_tl)
    ultimately show ?thesis using forks_last [of j] j(1) len by simp
  qed
  have 4: "\<forall>c \<in> set (pending s'). forks_last c"
    using assms(2) other(9) by (simp add: console_inv_def)
  from 1 2 3 4 show ?thesis by (simp add: console_inv_def)
qed

lemma main_po: "forks_last (fst (main w argv)) \<and> (\<forall>c \<in> set (snd (main w argv)). forks_last c)"
proof
  show "forks_last (fst (main w argv))" by (rule forks_last_quiet) (rule driver_prints)
  show "\<forall>c \<in> set (snd (main w argv)). forks_last c"
  proof
    fix c assume c: "c \<in> set (snd (main w argv))"
    show "forks_last c"
    proof (cases "Fork Parent \<in> set c")
      case True
      from main_prints_before_fork [OF c True] obtain a b where
        "c = a @ Fork Parent # b" "Fork Parent \<notin> set a" "prints b = []" by blast
      then show ?thesis by (simp add: forks_last_append)
    next
      case False
      then show ?thesis by (rule forks_last_no_fork)
    qed
  qed
qed

lemma reachable_main:
  assumes "fresh_fds w" and "reachable cap (main w argv) s"
  shows "run_inv s \<and> console_inv (main w argv) s"
  using assms(2)
proof (induction rule: reachable.induct)
  case init
  show ?case
    using run_inv_start [OF main_ok [OF assms(1)]] console_start [of "main w argv"] main_po [of w argv]
    by blast
next
  case (step s i s')
  then show ?case using run_inv_step console_step by blast
qed

lemma console_prefix: "console_inv r s \<Longrightarrow> prefix (out s) (stdout_of r)"
  unfolding console_inv_def by (metis prefixI)

lemma console_done:
  assumes "run_inv s" and "console_inv r s" and "all_exited s"
  shows "out s = stdout_of r"
proof -
  from assms(1) have ne: "procs s \<noteq> []" by (simp add: run_inv_def)
  then have l: "length (procs s) - 1 < length (procs s)" by simp
  with assms(1,3) have "script (procs s ! (length (procs s) - 1)) = []"
    "pend_of s (length (procs s) - 1) = []"
    by (auto simp: run_inv_def all_exited_def)
  then have "script (last (procs s)) = []" "pending s = []"
    using ne by (simp_all add: pend_of_def last_conv_nth)
  with assms(2) show ?thesis by (simp add: console_inv_def)
qed


section \<open>The claims\<close>

text \<open>
  C1 (as amended).  In every run in which no \<open>pipe\<close> and no \<open>fork\<close> fails, standard
  output holds exactly one line \<open>prime v\<close> for each prime \<open>v\<close> of 2..35, in ascending
  order, and nothing else.  In every run, failing or not, it is an initial part of that
  list.  Both hold of the lines of the stages taken in the order of the chain, and of
  the lines as they reach the console in a run of the kernel, whatever the order in
  which the processes run.
\<close>

theorem primes_printed:
  "prefix (stdout_of (main w argv)) (map prime_line (filter is_prime [2..35])) \<and>
   (no_failure w \<longrightarrow> stdout_of (main w argv) = map prime_line (filter is_prime [2..35])) \<and>
   (fresh_fds w \<and> reachable cap (main w argv) s \<longrightarrow>
      prefix (out s) (map prime_line (filter is_prime [2..35])) \<and>
      (no_failure w \<and> all_exited s \<longrightarrow> out s = map prime_line (filter is_prime [2..35])))"
proof (intro conjI impI)
  have "stdout_of (main w argv) =
      map prime_line (take (length (snd (main w argv))) (filter is_prime [2..35]))"
    by (simp only: main_stdout main_primes sift_primes)
  then show pre: "prefix (stdout_of (main w argv)) (map prime_line (filter is_prime [2..35]))"
    by (simp add: map_mono_prefix take_is_prefix)
  show all: "stdout_of (main w argv) = map prime_line (filter is_prime [2..35])" if "no_failure w"
    using main_no_failure(1) [OF that, of argv] by (simp only: sift_primes)
  show "prefix (out s) (map prime_line (filter is_prime [2..35]))"
    if a: "fresh_fds w \<and> reachable cap (main w argv) s"
  proof -
    from a have "console_inv (main w argv) s"
      using reachable_main [of w cap argv s] by simp
    from console_prefix [OF this] pre show ?thesis
      by (rule prefix_order.trans)
  qed
  show "out s = map prime_line (filter is_prime [2..35])"
    if a: "fresh_fds w \<and> reachable cap (main w argv) s" and b: "no_failure w \<and> all_exited s"
  proof -
    from a have "run_inv s" and "console_inv (main w argv) s"
      using reachable_main [of w cap argv s] by simp_all
    from console_done [OF this] b all show ?thesis by simp
  qed
qed

theorem primes_printed_witness:
  "no_failure xv6_world \<and> fresh_fds xv6_world \<and>
   stdout_of (main xv6_world [''primes'']) =
     [''prime 2'', ''prime 3'', ''prime 5'', ''prime 7'', ''prime 11'', ''prime 13'',
      ''prime 17'', ''prime 19'', ''prime 23'', ''prime 29'', ''prime 31''] \<and>
   reachable 1 (main xv6_world [''primes'']) (run 1 328 (start (main xv6_world [''primes'']))) \<and>
   all_exited (run 1 328 (start (main xv6_world [''primes'']))) \<and>
   out (run 1 328 (start (main xv6_world [''primes'']))) =
     [''prime 2'', ''prime 3'', ''prime 5'', ''prime 7'', ''prime 11'', ''prime 13'',
      ''prime 17'', ''prime 19'', ''prime 23'', ''prime 29'', ''prime 31'']"
proof -
  have nf: "no_failure xv6_world"
    by (simp add: no_failure_def xv6_world_def)
  have ps: "map prime_line (filter is_prime [2..35]) =
     [''prime 2'', ''prime 3'', ''prime 5'', ''prime 7'', ''prime 11'', ''prime 13'',
      ''prime 17'', ''prime 19'', ''prime 23'', ''prime 29'', ''prime 31'']"
    by code_simp
  have re: "reachable 1 (main xv6_world [''primes''])
      (run 1 328 (start (main xv6_world [''primes''])))"
    by (intro run_reachable reachable.init)
  have ex: "all_exited (run 1 328 (start (main xv6_world [''primes''])))"
    by code_simp
  from primes_printed [of xv6_world "[''primes'']" 1 "run 1 328 (start (main xv6_world [''primes'']))"]
    nf xv6_fresh re ex ps
  show ?thesis by simp
qed

text \<open>
  When \<open>fork\<close> fails in the stage of the prime 5 (process 3), only the lines of 2, 3
  and 5 are printed.
\<close>

theorem primes_printed_counterexample:
  "stdout_of (main (fork_fails_at 3) [''primes'']) = [''prime 2'', ''prime 3'', ''prime 5''] \<and>
   stdout_of (main (fork_fails_at 3) [''primes'']) \<noteq> map prime_line (filter is_prime [2..35]) \<and>
   all_exited (run 1 80 (start (main (fork_fails_at 3) [''primes'']))) \<and>
   out (run 1 80 (start (main (fork_fails_at 3) [''primes'']))) =
     [''prime 2'', ''prime 3'', ''prime 5'']"
  by code_simp

text \<open>
  C2 (as amended).  The exit status of the driver is 0 exactly when the driver itself
  reported no error, and 1 otherwise; it reports none exactly when its own \<open>pipe\<close> and
  \<open>fork\<close> succeed and every write of the Feeder succeeds.  An error reported by a
  stage does not reach it: \<open>wait(0)\<close> discards the status of the child.
\<close>

theorem driver_exit_status:
  "exit_status (fst (main w argv)) = Some (if errors (fst (main w argv)) = [] then 0 else 1) \<and>
   (errors (fst (main w argv)) = []) =
     (pipe_res w 0 \<noteq> None \<and> fork_ok w 0 \<and> writes (fst (main w argv)) = [2..35])"
proof (cases rule: main_cases [of w argv])
  case nopipe
  then show ?thesis by simp
next
  case (nofork p0 p1)
  then show ?thesis by simp
next
  case (fed p0 p1 c cs)
  then show ?thesis by simp
next
  case (cut p0 p1 c cs n)
  then show ?thesis by (simp add: take_upto_neq)
qed

text \<open>
  When \<open>pipe\<close> fails in the stage of the prime 29 (process 10), which has read 31,
  that stage reports \<open>pipe failed\<close> and exits with status 1, and the driver exits with
  status 0.  Nothing is left to write after 31 on the pipes that lead there, so that no
  write fails, whatever the buffers.
\<close>

theorem driver_exit_status_counterexample:
  "errors (last (snd (main (pipe_fails_at 10) [''primes'']))) = [''pipe failed''] \<and>
   exit_status (last (snd (main (pipe_fails_at 10) [''primes'']))) = Some 1 \<and>
   exit_status (fst (main (pipe_fails_at 10) [''primes''])) = Some 0"
  by code_simp

text \<open>
  C3 (as amended).  In every run the number of stages ever created equals the number of
  primes printed (not that number plus one: a stage forks only once it holds a value for
  its successor, so that no stage is created for an empty pipe).  The designated primes
  of the stages are the first primes of 2..35, one for each stage.  No stage forks more
  than once.  A stage has a successor only if it forked, and the designated prime of
  the successor is a value that the stage read and that no designated prime of the
  stages up to it divides.
\<close>

theorem stages_created:
  "length (snd (main w argv)) = length (stdout_of (main w argv)) \<and>
   stage_primes (snd (main w argv)) =
     take (length (snd (main w argv))) (filter is_prime [2..35]) \<and>
   (\<forall>s \<in> set (snd (main w argv)). length (filter (\<lambda>e. e = Fork Parent) s) \<le> 1) \<and>
   (\<forall>i. Suc i < length (snd (main w argv)) \<longrightarrow>
      Fork Parent \<in> set (snd (main w argv) ! i) \<and>
      stage_primes (snd (main w argv)) ! Suc i \<in> set (reads (snd (main w argv) ! i)) \<and>
      (\<forall>j \<le> i. \<not> stage_primes (snd (main w argv)) ! j dvd
                   stage_primes (snd (main w argv)) ! Suc i))"
proof (intro conjI ballI allI impI)
  show "length (snd (main w argv)) = length (stdout_of (main w argv))"
    by (simp add: main_stdout main_primes_length)
  show "stage_primes (snd (main w argv)) =
     take (length (snd (main w argv))) (filter is_prime [2..35])"
    by (simp only: main_primes sift_primes)
next
  fix s assume "s \<in> set (snd (main w argv))"
  then obtain i where "i < length (snd (main w argv))" "s = snd (main w argv) ! i"
    by (auto simp: in_set_conv_nth)
  then show "length (filter (\<lambda>e. e = Fork Parent) s) \<le> 1"
    using main_stage_facts(8) [of i w argv] by simp
next
  fix i assume i: "Suc i < length (snd (main w argv))"
  then have i': "i < length (snd (main w argv))" by simp
  show "Fork Parent \<in> set (snd (main w argv) ! i)"
    using main_stage_facts(9) [OF i'] i by simp
  show "stage_primes (snd (main w argv)) ! Suc i \<in> set (reads (snd (main w argv) ! i))"
    using main_successor_prime [OF i] main_primes_nth [OF i] by simp
next
  fix i j assume i: "Suc i < length (snd (main w argv))" and j: "j \<le> i"
  have si: "Suc i < length (streams [2..35])" using main_stage_facts(1) [OF i] .
  have "hd (streams [2..35] ! Suc i) \<in> set (streams [2..35] ! Suc i)"
    using streams_nth [OF si] by simp
  from streams_nonmul [OF si _ this, of j] j
  have "\<not> hd (streams [2..35] ! j) dvd hd (streams [2..35] ! Suc i)"
    by (simp add: smod_dvd)
  moreover have "j < length (snd (main w argv))" using i j by simp
  ultimately show "\<not> stage_primes (snd (main w argv)) ! j dvd
                   stage_primes (snd (main w argv)) ! Suc i"
    using main_primes_nth [OF i] main_primes_nth [of j w argv] by simp
qed

theorem stages_created_witness:
  "snd (main xv6_world [''primes'']) ! 0 \<in> set (snd (main xv6_world [''primes''])) \<and>
   Suc 0 < length (snd (main xv6_world [''primes''])) \<and>
   length (filter (\<lambda>e. e = Fork Parent) (snd (main xv6_world [''primes'']) ! 0)) \<le> 1 \<and>
   Fork Parent \<in> set (snd (main xv6_world [''primes'']) ! 0) \<and>
   stage_primes (snd (main xv6_world [''primes''])) ! Suc 0
     \<in> set (reads (snd (main xv6_world [''primes'']) ! 0)) \<and>
   \<not> stage_primes (snd (main xv6_world [''primes''])) ! 0 dvd
     stage_primes (snd (main xv6_world [''primes''])) ! Suc 0 \<and>
   length (stdout_of (main xv6_world [''primes''])) = 11"
proof -
  have a: "snd (main xv6_world [''primes'']) ! 0 \<in> set (snd (main xv6_world [''primes'']))"
    "Suc 0 < length (snd (main xv6_world [''primes'']))"
    "length (snd (main xv6_world [''primes''])) = 11"
    by code_simp+
  from stages_created [of xv6_world "[''primes'']"] a show ?thesis by auto
qed

text \<open>
  When nothing fails there are 11 stages for 11 primes, not 12.
\<close>

theorem stages_created_counterexample:
  "length (snd (main xv6_world [''primes''])) = 11 \<and>
   length (stdout_of (main xv6_world [''primes''])) = 11 \<and>
   length (snd (main xv6_world [''primes''])) \<noteq> length (stdout_of (main xv6_world [''primes''])) + 1"
  by code_simp

text \<open>
  C4.  In every run, and so at every point of it, each stage has one designated prime,
  the designated primes increase strictly along the chain, and no value written to the
  input of a stage is divisible by the designated prime of an earlier stage.
\<close>

theorem chain_invariant:
  "length (stage_primes (snd (main w argv))) = length (snd (main w argv)) \<and>
   sorted_wrt (<) (stage_primes (snd (main w argv))) \<and>
   (\<forall>i < length (snd (main w argv)). \<forall>v \<in> set (stage_input (main w argv) i). \<forall>j < i.
      \<not> stage_primes (snd (main w argv)) ! j dvd v)"
proof (intro conjI allI impI ballI)
  show "length (stage_primes (snd (main w argv))) = length (snd (main w argv))"
    by (rule main_primes_length)
  have "stage_primes (snd (main w argv)) =
     take (length (snd (main w argv))) (filter is_prime [2..35])"
    by (simp only: main_primes sift_primes)
  then show "sorted_wrt (<) (stage_primes (snd (main w argv)))"
    using sorted_35 by (simp add: sorted_wrt_take)
next
  fix i v j
  assume i: "i < length (snd (main w argv))" and v: "v \<in> set (stage_input (main w argv) i)"
    and j: "j < i"
  from j obtain i' where i': "i = Suc i'" by (cases i) auto
  have l: "i' < length (snd (main w argv))" using i i' by simp
  have sl: "i' < length (streams [2..35])" using main_stage_facts(1) [OF l] .
  let ?s = "streams [2..35] ! i'"
  have "v \<in> set (writes (snd (main w argv) ! i'))"
    using v i' by (simp add: stage_input_def)
  moreover have "set (writes (snd (main w argv) ! i'))
      \<subseteq> set (filter (\<lambda>x. x smod hd ?s \<noteq> 0) (tl ?s))"
    by (rule set_mono_prefix) (rule main_stage_facts(4) [OF l])
  ultimately have "v \<in> set (filter (\<lambda>x. x smod hd ?s \<noteq> 0) (tl ?s))"
    by blast
  then have nm: "v smod hd ?s \<noteq> 0" and "v \<in> set (tl ?s)" by auto
  then have vs: "v \<in> set ?s" using streams_nth [OF sl] by (auto dest: list.set_sel(2))
  have "v smod hd (streams [2..35] ! j) \<noteq> 0"
  proof (cases "j = i'")
    case True
    with nm show ?thesis by simp
  next
    case False
    with j i' have "j < i'" by simp
    from streams_nonmul [OF sl this vs] show ?thesis .
  qed
  moreover have "j < length (snd (main w argv))" using j i by simp
  ultimately show "\<not> stage_primes (snd (main w argv)) ! j dvd v"
    using main_primes_nth [of j w argv] by (simp add: smod_dvd)
qed

theorem chain_invariant_witness:
  "stage_primes (snd (main xv6_world [''primes''])) = [2, 3, 5, 7, 11, 13, 17, 19, 23, 29, 31] \<and>
   sorted_wrt (<) (stage_primes (snd (main xv6_world [''primes'']))) \<and>
   (2 :: nat) < length (snd (main xv6_world [''primes''])) \<and>
   25 \<in> set (stage_input (main xv6_world [''primes'']) 2) \<and>
   \<not> stage_primes (snd (main xv6_world [''primes''])) ! 0 dvd 25 \<and>
   \<not> stage_primes (snd (main xv6_world [''primes''])) ! 1 dvd 25"
proof -
  have a: "(2 :: nat) < length (snd (main xv6_world [''primes'']))"
    "25 \<in> set (stage_input (main xv6_world [''primes'']) 2)"
    "stage_primes (snd (main xv6_world [''primes''])) = [2, 3, 5, 7, 11, 13, 17, 19, 23, 29, 31]"
    by code_simp+
  from chain_invariant [of xv6_world "[''primes'']"]
  have "sorted_wrt (<) (stage_primes (snd (main xv6_world [''primes''])))"
    and "\<forall>j < 2. \<not> stage_primes (snd (main xv6_world [''primes''])) ! j dvd 25"
    using a(1,2) by blast+
  then have "sorted_wrt (<) (stage_primes (snd (main xv6_world [''primes''])))"
    and "\<not> stage_primes (snd (main xv6_world [''primes''])) ! 0 dvd 25"
    and "\<not> stage_primes (snd (main xv6_world [''primes''])) ! 1 dvd 25"
    by simp_all
  with a show ?thesis by blast
qed

text \<open>
  C5 (as amended).  In every run, a stage that forked a successor ends with: close the
  input end, close the write end of the pipe it created, \<open>wait\<close>, \<open>exit(0)\<close>, and
  it neither waits nor exits before; \<open>wait\<close> returns only when the successor has
  terminated.  The driver ends in the same way (close the write end, \<open>wait\<close>,
  \<open>exit(0)\<close>) whenever every write of the Feeder succeeded.
\<close>

theorem wait_before_exit:
  "(\<forall>s \<in> set (snd (main w argv)). Fork Parent \<in> set s \<longrightarrow>
      (\<exists>pre lf n0 n1. s = pre @ [Close lf, Close n1, Wait, Exit 0] \<and>
         Pipe (Some (n0, n1)) \<in> set pre \<and> Wait \<notin> set pre \<and> (\<forall>st. Exit st \<notin> set pre))) \<and>
   (Fork Parent \<in> set (fst (main w argv)) \<and> writes (fst (main w argv)) = [2..35] \<longrightarrow>
      (\<exists>pre p0 p1. fst (main w argv) = pre @ [Close p1, Wait, Exit 0] \<and>
         Pipe (Some (p0, p1)) \<in> set pre \<and> Wait \<notin> set pre \<and> (\<forall>st. Exit st \<notin> set pre)))"
proof (intro conjI ballI impI)
  fix s assume "s \<in> set (snd (main w argv))" and f: "Fork Parent \<in> set s"
  then obtain i where "i < length (snd (main w argv))" "s = snd (main w argv) ! i"
    by (auto simp: in_set_conv_nth)
  with main_stage_shape [of i w argv] f
  show "\<exists>pre lf n0 n1. s = pre @ [Close lf, Close n1, Wait, Exit 0] \<and>
         Pipe (Some (n0, n1)) \<in> set pre \<and> Wait \<notin> set pre \<and> (\<forall>st. Exit st \<notin> set pre)"
    by simp
next
  assume a: "Fork Parent \<in> set (fst (main w argv)) \<and> writes (fst (main w argv)) = [2..35]"
  show "\<exists>pre p0 p1. fst (main w argv) = pre @ [Close p1, Wait, Exit 0] \<and>
         Pipe (Some (p0, p1)) \<in> set pre \<and> Wait \<notin> set pre \<and> (\<forall>st. Exit st \<notin> set pre)"
  proof (cases rule: main_cases [of w argv])
    case nopipe
    with a show ?thesis by simp
  next
    case (nofork p0 p1)
    with a show ?thesis by simp
  next
    case (fed p0 p1 c cs)
    let ?pre = "[Pipe (Some (p0, p1)), Fork Parent, Close p0] @ map (\<lambda>v. Write p1 v True) [2..35]"
    have "fst (main w argv) = ?pre @ [Close p1, Wait, Exit 0]" using fed(4) by simp
    moreover have "Pipe (Some (p0, p1)) \<in> set ?pre" "Wait \<notin> set ?pre" "\<forall>st. Exit st \<notin> set ?pre"
      by auto
    ultimately show ?thesis by blast
  next
    case (cut p0 p1 c cs n)
    with a show ?thesis by (simp add: take_upto_neq)
  qed
qed

theorem wait_before_exit_witness:
  "snd (main xv6_world [''primes'']) ! 0 \<in> set (snd (main xv6_world [''primes''])) \<and>
   Fork Parent \<in> set (snd (main xv6_world [''primes'']) ! 0) \<and>
   (\<exists>pre lf n0 n1. snd (main xv6_world [''primes'']) ! 0 = pre @ [Close lf, Close n1, Wait, Exit 0] \<and>
         Pipe (Some (n0, n1)) \<in> set pre \<and> Wait \<notin> set pre \<and> (\<forall>st. Exit st \<notin> set pre)) \<and>
   Fork Parent \<in> set (fst (main xv6_world [''primes''])) \<and>
   writes (fst (main xv6_world [''primes''])) = [2..35] \<and>
   (\<exists>pre p0 p1. fst (main xv6_world [''primes'']) = pre @ [Close p1, Wait, Exit 0] \<and>
         Pipe (Some (p0, p1)) \<in> set pre \<and> Wait \<notin> set pre \<and> (\<forall>st. Exit st \<notin> set pre))"
proof -
  have a: "snd (main xv6_world [''primes'']) ! 0 \<in> set (snd (main xv6_world [''primes'']))"
    "Fork Parent \<in> set (snd (main xv6_world [''primes'']) ! 0)"
    "Fork Parent \<in> set (fst (main xv6_world [''primes'']))"
    "writes (fst (main xv6_world [''primes''])) = [2..35]"
    by code_simp+
  from wait_before_exit [of xv6_world "[''primes'']"] a show ?thesis by blast
qed

text \<open>
  When stage 0 cannot create its pipe and the Feeder is not ahead of it, the third write
  of the Feeder fails: the driver has forked stage 0 and exits with status 1 without
  waiting for it.
\<close>

theorem wait_before_exit_counterexample:
  "Fork Parent \<in> set (fst (main (pipe_fails_at 1) [''primes''])) \<and>
   Wait \<notin> set (fst (main (pipe_fails_at 1) [''primes''])) \<and>
   exit_status (fst (main (pipe_fails_at 1) [''primes''])) = Some 1"
  by code_simp

text \<open>
  C6.  The bound is fixed in the program: the Feeder offers 2..35.  In every run of
  \<open>main\<close>, whatever the order in which the kernel lets the processes run, and whatever
  fails: as long as some process has not exited, the pending call of some process
  returns, so that no process waits for ever on a pipe or on a child; every step takes
  one call from the traces, which hold 2726 calls at most; and once every process, the
  driver included, has exited, every trace has been performed to its end.  The loops of
  a stage and the construction of the chain end on every finite input of positive
  values: \<open>sieve\<close> creates at most as many further processes as there are values, and
  every trace of the chain ends with \<open>exit\<close> after a bounded number of calls.
\<close>

theorem pipeline_terminates:
  "(fresh_fds w \<and> 0 < cap \<and> reachable cap (main w argv) s \<longrightarrow>
      (all_exited s \<or> (\<exists>i s'. kstep cap s i = Some s')) \<and>
      (\<forall>i s'. kstep cap s i = Some s' \<longrightarrow> steps_left s' < steps_left s) \<and>
      steps_left s \<le> 2726 \<and>
      (all_exited s \<longrightarrow> steps_left s = 0)) \<and>
   ((\<forall>x \<in> set inp. 0 < x) \<longrightarrow>
      length (snd (sieve w k leftfd inp)) \<le> length inp \<and>
      (\<forall>t \<in> set (fst (sieve w k leftfd inp) # snd (sieve w k leftfd inp)).
         (exit_status t = Some 0 \<or> exit_status t = Some 1) \<and> length t \<le> 2 * length inp + 11))"
proof (intro conjI impI allI ballI)
  assume a: "fresh_fds w \<and> 0 < cap \<and> reachable cap (main w argv) s"
  then have run_inv: "run_inv s" using reachable_main [of w cap argv s] by simp
  show "all_exited s \<or> (\<exists>i s'. kstep cap s i = Some s')"
    using progress [OF run_inv, of cap] a by blast
  show "steps_left s \<le> 2726"
    using reachable_steps [of cap "main w argv" s] main_steps [of w argv] a by simp
  show "steps_left s = 0" if "all_exited s"
    using run_inv that by (rule run_inv_done)
next
  fix i s' assume "kstep cap s i = Some s'"
  from steps_step [OF this] show "steps_left s' < steps_left s" by simp
next
  obtain c cs where sv: "sieve w k leftfd inp = (c, cs)"
    by (cases "sieve w k leftfd inp")
  show "length (snd (sieve w k leftfd inp)) \<le> length inp"
    using sieve_bounds(1) [OF sv] sv by simp
  show "exit_status t = Some 0 \<or> exit_status t = Some 1"
    and "length t \<le> 2 * length inp + 11"
    if "t \<in> set (fst (sieve w k leftfd inp) # snd (sieve w k leftfd inp))" for t
    using sieve_bounds(2) [OF sv, of t] that sv by simp_all
qed

theorem pipeline_terminates_witness:
  "fresh_fds xv6_world \<and> (0 :: nat) < 128 \<and>
   reachable 128 (main xv6_world [''primes'']) (start (main xv6_world [''primes''])) \<and>
   \<not> all_exited (start (main xv6_world [''primes''])) \<and>
   (\<exists>i s'. kstep 128 (start (main xv6_world [''primes''])) i = Some s') \<and>
   reachable 128 (main xv6_world [''primes''])
     (run 128 328 (start (main xv6_world [''primes'']))) \<and>
   all_exited (run 128 328 (start (main xv6_world [''primes'']))) \<and>
   steps_left (run 128 328 (start (main xv6_world [''primes'']))) = 0 \<and>
   list_all (\<lambda>x. 0 < x) [2, 3, 4 :: int] \<and>
   length (snd (sieve xv6_world 1 3 [2, 3, 4])) \<le> length [2, 3, 4 :: int]"
proof -
  have r0: "reachable 128 (main xv6_world [''primes'']) (start (main xv6_world [''primes'']))"
    by (rule reachable.init)
  have n0: "\<not> all_exited (start (main xv6_world [''primes'']))"
    by (simp add: all_exited_def start_def)
  have r1: "reachable 128 (main xv6_world [''primes''])
      (run 128 328 (start (main xv6_world [''primes''])))"
    by (intro run_reachable reachable.init)
  have e1: "all_exited (run 128 328 (start (main xv6_world [''primes''])))"
    by code_simp
  have p: "\<forall>x \<in> set [2, 3, 4 :: int]. 0 < x" by simp
  from pipeline_terminates [of xv6_world 128 "[''primes'']"
      "start (main xv6_world [''primes''])" "[2, 3, 4]" 1 3] xv6_fresh r0 n0 p
  have "\<exists>i s'. kstep 128 (start (main xv6_world [''primes''])) i = Some s'"
    and "length (snd (sieve xv6_world 1 3 [2, 3, 4])) \<le> length [2, 3, 4 :: int]"
    by simp_all
  moreover from pipeline_terminates [of xv6_world 128 "[''primes'']"
      "run 128 328 (start (main xv6_world [''primes'']))" "[2, 3, 4]" 1 3] xv6_fresh r1 e1
  have "steps_left (run 128 328 (start (main xv6_world [''primes'']))) = 0"
    by simp
  moreover have "(0 :: nat) < 128" by simp
  moreover have "list_all (\<lambda>x. 0 < x) [2, 3, 4 :: int]" by simp
  ultimately show ?thesis using xv6_fresh r0 n0 r1 e1 by blast
qed

text \<open>
  C7 (as amended).  Once the driver's \<open>pipe\<close> and \<open>fork\<close> have succeeded, the Feeder
  writes the integers 2..35 in ascending order; if every write succeeds the driver then
  closes the write end, waits and exits with status 0; at the first failed write the
  Feeder reports \<open>writer: write error\<close> and the driver process ends there with status
  1: it neither closes the write end nor waits.
\<close>

theorem feeder_writes:
  assumes "pipe_res w 0 = Some (p0, p1)" and "fork_ok w 0"
  shows "prefix (writes (fst (main w argv))) [2..35] \<and>
    fst (main w argv) =
      [Pipe (Some (p0, p1)), Fork Parent, Close p0] @
      map (\<lambda>v. Write p1 v True) (writes (fst (main w argv))) @
      (if writes (fst (main w argv)) = [2..35] then [Close p1, Wait, Exit 0]
       else [Write p1 ([2..35] ! length (writes (fst (main w argv)))) False,
             Fprintf 2 ''writer: write error'', Exit 1])"
proof (cases rule: main_cases [of w argv])
  case nopipe
  with assms show ?thesis by simp
next
  case (nofork p0 p1)
  with assms show ?thesis by simp
next
  case (fed p0 p1 c cs)
  with assms show ?thesis by simp
next
  case (cut p0 p1 c cs n)
  with assms show ?thesis by (simp add: take_upto_neq take_is_prefix)
qed

theorem feeder_writes_witness:
  "pipe_res xv6_world 0 = Some (3, 4) \<and> fork_ok xv6_world 0 \<and>
   prefix (writes (fst (main xv6_world [''primes'']))) [2..35] \<and>
   writes (fst (main xv6_world [''primes''])) = [2..35] \<and>
   exit_status (fst (main xv6_world [''primes''])) = Some 0"
proof -
  have a: "pipe_res xv6_world 0 = Some (3, 4)" "fork_ok xv6_world 0"
    by (simp_all add: xv6_world_def)
  have b: "writes (fst (main xv6_world [''primes''])) = [2..35]"
    "exit_status (fst (main xv6_world [''primes''])) = Some 0"
    by code_simp+
  from feeder_writes [OF a, of "[''primes'']"] a b show ?thesis by simp
qed

text \<open>
  When stage 0 cannot create its pipe and the Feeder is not ahead of it, the Feeder
  writes 2 and 3, its third write fails, and the driver ends with \<open>exit(1)\<close> at once.
\<close>

theorem feeder_writes_counterexample:
  "fst (main (pipe_fails_at 1) [''primes'']) =
     [Pipe (Some (3, 4)), Fork Parent, Close 3, Write 4 2 True, Write 4 3 True,
      Write 4 4 False, Fprintf 2 ''writer: write error'', Exit 1]"
  by code_simp

text \<open>
  C8 (as amended).  In every run, a stage whose \<open>pipe\<close> or \<open>fork\<close> fails is the last
  stage of the chain; it has printed its prime, reports the failure, closes its input
  end (and both ends of the new pipe when \<open>fork\<close> failed) and exits with status 1.
  The lines printed are an initial part of the full output, one for each stage created.
  The exit status of the driver does not tell of the failure: it is 1 if a write of the
  Feeder failed and 0 otherwise.  No process remains blocked: whatever the order in
  which the kernel lets the processes run, as long as some process has not exited, the
  pending call of some process returns; and the lines printed stay on standard output:
  when every process has exited it holds the line of every stage created.
\<close>

theorem spawn_failure:
  "(\<forall>s \<in> set (snd (main w argv)). Pipe None \<in> set s \<or> Fork Failed \<in> set s \<longrightarrow>
      s = last (snd (main w argv)) \<and> exit_status s = Some 1 \<and> length (prints s) = 1 \<and>
      ((\<exists>pre lf. s = pre @ [Pipe None, Fprintf 2 ''pipe failed'', Close lf, Exit 1] \<and>
            (\<exists>v. Read lf v \<in> set pre)) \<or>
       (\<exists>pre lf n0 n1. s = pre @ [Pipe (Some (n0, n1)), Fork Failed, Fprintf 2 ''fork failed'',
                                  Close lf, Close n0, Close n1, Exit 1] \<and>
            (\<exists>v. Read lf v \<in> set pre)))) \<and>
   prefix (stdout_of (main w argv)) (map prime_line (filter is_prime [2..35])) \<and>
   length (stdout_of (main w argv)) = length (snd (main w argv)) \<and>
   (snd (main w argv) \<noteq> [] \<longrightarrow>
      exit_status (fst (main w argv)) =
        Some (if writes (fst (main w argv)) = [2..35] then 0 else 1)) \<and>
   (fresh_fds w \<and> 0 < cap \<and> reachable cap (main w argv) st \<longrightarrow>
      (all_exited st \<or> (\<exists>i st'. kstep cap st i = Some st')) \<and>
      prefix (out st) (stdout_of (main w argv)) \<and>
      (all_exited st \<longrightarrow> out st = stdout_of (main w argv)))"
proof (intro conjI ballI impI)
  fix s assume "s \<in> set (snd (main w argv))" and f: "Pipe None \<in> set s \<or> Fork Failed \<in> set s"
  then obtain i where i: "i < length (snd (main w argv))" "s = snd (main w argv) ! i"
    by (auto simp: in_set_conv_nth)
  note sh = main_stage_shape [OF i(1)]
  have l: "Suc i = length (snd (main w argv))" using sh f i(2) by blast
  then have "snd (main w argv) \<noteq> []" by auto
  then have "last (snd (main w argv)) = snd (main w argv) ! (length (snd (main w argv)) - 1)"
    by (rule last_conv_nth)
  moreover have "length (snd (main w argv)) - 1 = i" using l by arith
  ultimately show "s = last (snd (main w argv))" using i(2) by (simp only:)
  show "length (prints s) = 1" using main_stage_facts(5) [OF i(1)] i(2) by simp
  show sh': "(\<exists>pre lf. s = pre @ [Pipe None, Fprintf 2 ''pipe failed'', Close lf, Exit 1] \<and>
            (\<exists>v. Read lf v \<in> set pre)) \<or>
       (\<exists>pre lf n0 n1. s = pre @ [Pipe (Some (n0, n1)), Fork Failed, Fprintf 2 ''fork failed'',
                                  Close lf, Close n0, Close n1, Exit 1] \<and>
            (\<exists>v. Read lf v \<in> set pre))"
    using sh f i(2) by blast
  then show "exit_status s = Some 1" by auto
next
  have "stdout_of (main w argv) =
      map prime_line (take (length (snd (main w argv))) (filter is_prime [2..35]))"
    by (simp only: main_stdout main_primes sift_primes)
  then show "prefix (stdout_of (main w argv)) (map prime_line (filter is_prime [2..35]))"
    by (simp add: map_mono_prefix take_is_prefix)
  show "length (stdout_of (main w argv)) = length (snd (main w argv))"
    by (simp add: main_stdout main_primes_length)
next
  assume ne: "snd (main w argv) \<noteq> []"
  show "exit_status (fst (main w argv)) =
        Some (if writes (fst (main w argv)) = [2..35] then 0 else 1)"
  proof (cases rule: main_cases [of w argv])
    case nopipe
    with ne show ?thesis by simp
  next
    case (nofork p0 p1)
    with ne show ?thesis by simp
  next
    case (fed p0 p1 c cs)
    then show ?thesis by simp
  next
    case (cut p0 p1 c cs n)
    then show ?thesis by (simp add: take_upto_neq)
  qed
next
  assume a: "fresh_fds w \<and> 0 < cap \<and> reachable cap (main w argv) st"
  then have run_inv: "run_inv st" and con: "console_inv (main w argv) st"
    using reachable_main [of w cap argv st] by simp_all
  from progress [OF run_inv, of cap] a show "all_exited st \<or> (\<exists>i st'. kstep cap st i = Some st')"
    by blast
  show "prefix (out st) (stdout_of (main w argv))" using con by (rule console_prefix)
  show "out st = stdout_of (main w argv)" if "all_exited st"
    using run_inv con that by (rule console_done)
qed

theorem spawn_failure_witness:
  "last (snd (main (fork_fails_at 3) [''primes''])) \<in> set (snd (main (fork_fails_at 3) [''primes''])) \<and>
   Fork Failed \<in> set (last (snd (main (fork_fails_at 3) [''primes'']))) \<and>
   exit_status (last (snd (main (fork_fails_at 3) [''primes'']))) = Some 1 \<and>
   length (prints (last (snd (main (fork_fails_at 3) [''primes''])))) = 1 \<and>
   stdout_of (main (fork_fails_at 3) [''primes'']) = [''prime 2'', ''prime 3'', ''prime 5''] \<and>
   writes (fst (main (fork_fails_at 3) [''primes''])) \<noteq> [2..35] \<and>
   exit_status (fst (main (fork_fails_at 3) [''primes''])) = Some 1 \<and>
   fresh_fds (fork_fails_at 3) \<and> (0 :: nat) < 1 \<and>
   reachable 1 (main (fork_fails_at 3) [''primes''])
     (start (main (fork_fails_at 3) [''primes''])) \<and>
   \<not> all_exited (start (main (fork_fails_at 3) [''primes''])) \<and>
   (\<exists>i st'. kstep 1 (start (main (fork_fails_at 3) [''primes''])) i = Some st') \<and>
   reachable 1 (main (fork_fails_at 3) [''primes''])
     (run 1 80 (start (main (fork_fails_at 3) [''primes'']))) \<and>
   all_exited (run 1 80 (start (main (fork_fails_at 3) [''primes'']))) \<and>
   out (run 1 80 (start (main (fork_fails_at 3) [''primes'']))) =
     [''prime 2'', ''prime 3'', ''prime 5'']"
proof -
  have a: "last (snd (main (fork_fails_at 3) [''primes''])) \<in> set (snd (main (fork_fails_at 3) [''primes'']))"
    "Fork Failed \<in> set (last (snd (main (fork_fails_at 3) [''primes''])))"
    "stdout_of (main (fork_fails_at 3) [''primes'']) = [''prime 2'', ''prime 3'', ''prime 5'']"
    "writes (fst (main (fork_fails_at 3) [''primes''])) \<noteq> [2..35]"
    "snd (main (fork_fails_at 3) [''primes'']) \<noteq> []"
    by code_simp+
  have r: "reachable 1 (main (fork_fails_at 3) [''primes''])
      (start (main (fork_fails_at 3) [''primes'']))"
    by (rule reachable.init)
  have n: "\<not> all_exited (start (main (fork_fails_at 3) [''primes'']))"
    by (simp add: all_exited_def start_def)
  note sf = spawn_failure [of "fork_fails_at 3" "[''primes'']" 1
      "start (main (fork_fails_at 3) [''primes''])"]
  from sf a(1,2) have "exit_status (last (snd (main (fork_fails_at 3) [''primes'']))) = Some 1"
    and "length (prints (last (snd (main (fork_fails_at 3) [''primes''])))) = 1"
    by blast+
  moreover from sf a(4,5) have "exit_status (fst (main (fork_fails_at 3) [''primes''])) = Some 1"
    by simp
  moreover from sf fork_fails_fresh [of 3] r n
  have "\<exists>i st'. kstep 1 (start (main (fork_fails_at 3) [''primes''])) i = Some st'"
    by simp
  moreover have "(0 :: nat) < 1" by simp
  moreover have r': "reachable 1 (main (fork_fails_at 3) [''primes''])
      (run 1 80 (start (main (fork_fails_at 3) [''primes''])))"
    by (intro run_reachable reachable.init)
  moreover have e': "all_exited (run 1 80 (start (main (fork_fails_at 3) [''primes''])))"
    by code_simp
  moreover from spawn_failure [of "fork_fails_at 3" "[''primes'']" 1
      "run 1 80 (start (main (fork_fails_at 3) [''primes'']))"] fork_fails_fresh [of 3] r' e' a(3)
  have "out (run 1 80 (start (main (fork_fails_at 3) [''primes'']))) =
     [''prime 2'', ''prime 3'', ''prime 5'']"
    by simp
  ultimately show ?thesis using a fork_fails_fresh [of 3] r n by blast
qed

text \<open>
  When \<open>fork\<close> fails in the stage of the prime 29 (process 10), which has read 31, no
  write fails anywhere and the driver exits with status 0.
\<close>

theorem spawn_failure_counterexample:
  "Fork Failed \<in> set (last (snd (main (fork_fails_at 10) [''primes'']))) \<and>
   errors (last (snd (main (fork_fails_at 10) [''primes'']))) = [''fork failed''] \<and>
   stdout_of (main (fork_fails_at 10) [''primes'']) =
     [''prime 2'', ''prime 3'', ''prime 5'', ''prime 7'', ''prime 11'', ''prime 13'',
      ''prime 17'', ''prime 19'', ''prime 23'', ''prime 29''] \<and>
   exit_status (fst (main (fork_fails_at 10) [''primes''])) = Some 0"
  by code_simp

text \<open>
  C9 (as amended).  A stage whose first read meets end of file prints nothing, closes
  its input end and exits with status 0; it reports nothing and forks no process; and
  a stage meets end of file at its first read only if its pipe offers nothing.  No
  stage of this program is ever in that case: there is no bound to give, the Feeder
  offers 2..35 whatever the arguments, stage 0 reads 2 first, and every stage of every
  run reads a value first and prints it.  In the runs in which no \<open>pipe\<close> and no
  \<open>fork\<close> fails every process, the driver included, reports nothing and exits with
  status 0.
\<close>

theorem empty_input:
  "sieve w k leftfd [] = ([Read leftfd None, Close leftfd, Exit 0], []) \<and>
   stdout_of (sieve w k leftfd []) = [] \<and>
   errors (fst (sieve w k leftfd [])) = [] \<and>
   exit_status (fst (sieve w k leftfd [])) = Some 0 \<and>
   (first_read (fst (sieve w k leftfd inp)) = Some None \<longrightarrow> inp = []) \<and>
   writes (feed_numbers None wfd) = [2..35] \<and>
   (pipe_res w 0 \<noteq> None \<and> fork_ok w 0 \<longrightarrow>
      snd (main w argv) \<noteq> [] \<and> first_read (hd (snd (main w argv))) = Some (Some 2)) \<and>
   (\<forall>s \<in> set (snd (main w argv)). \<exists>p. first_read s = Some (Some p) \<and> prints s = [prime_line p]) \<and>
   (no_failure w \<longrightarrow>
      (\<forall>t \<in> set (fst (main w argv) # snd (main w argv)). exit_status t = Some 0 \<and> errors t = []))"
proof (intro conjI impI ballI)
  show "sieve w k leftfd [] = ([Read leftfd None, Close leftfd, Exit 0], [])"
    "stdout_of (sieve w k leftfd []) = []" "errors (fst (sieve w k leftfd [])) = []"
    "exit_status (fst (sieve w k leftfd [])) = Some 0"
    by (simp_all add: sieve.simps stdout_of_def)
  show "inp = []" if "first_read (fst (sieve w k leftfd inp)) = Some None"
    using that by (rule sieve_eof_first)
  show "writes (feed_numbers None wfd) = [2..35]" by (rule feed_offer)
  show "snd (main w argv) \<noteq> []" "first_read (hd (snd (main w argv))) = Some (Some 2)"
    if "pipe_res w 0 \<noteq> None \<and> fork_ok w 0"
    using main_first_stage [of w argv] that by simp_all
next
  fix s assume "s \<in> set (snd (main w argv))"
  then obtain i where i: "i < length (snd (main w argv))" "s = snd (main w argv) ! i"
    by (auto simp: in_set_conv_nth)
  from main_first_read [OF i(1)] main_stage_facts(5) [OF i(1)] i(2)
  show "\<exists>p. first_read s = Some (Some p) \<and> prints s = [prime_line p]" by simp
next
  fix t assume "no_failure w" and "t \<in> set (fst (main w argv) # snd (main w argv))"
  then show "exit_status t = Some 0" "errors t = []"
    using main_no_failure(5) [of w argv] by blast+
qed

theorem empty_input_witness:
  "first_read (fst (sieve xv6_world 1 3 [])) = Some None \<and>
   pipe_res xv6_world 0 \<noteq> None \<and> fork_ok xv6_world 0 \<and> no_failure xv6_world \<and>
   first_read (hd (snd (main xv6_world [''primes'']))) = Some (Some 2) \<and>
   hd (snd (main xv6_world [''primes''])) \<in> set (snd (main xv6_world [''primes''])) \<and>
   prints (hd (snd (main xv6_world [''primes'']))) = [prime_line 2] \<and>
   fst (main xv6_world [''primes'']) \<in>
     set (fst (main xv6_world [''primes'']) # snd (main xv6_world [''primes''])) \<and>
   exit_status (fst (main xv6_world [''primes''])) = Some 0"
proof -
  have nf: "no_failure xv6_world"
    by (simp add: no_failure_def xv6_world_def)
  have a: "pipe_res xv6_world 0 \<noteq> None" "fork_ok xv6_world 0"
    by (simp_all add: xv6_world_def)
  have b: "first_read (fst (sieve xv6_world 1 3 [])) = Some None"
    by (simp add: sieve.simps)
  note ei = empty_input [of xv6_world 1 3 "[]" 4 "[''primes'']"]
  from ei a have c: "snd (main xv6_world [''primes'']) \<noteq> []"
    "first_read (hd (snd (main xv6_world [''primes'']))) = Some (Some 2)"
    by simp_all
  then have d: "hd (snd (main xv6_world [''primes''])) \<in> set (snd (main xv6_world [''primes'']))"
    by simp
  with ei c(2) have "prints (hd (snd (main xv6_world [''primes'']))) = [prime_line 2]"
    by fastforce
  moreover from ei nf have "exit_status (fst (main xv6_world [''primes''])) = Some 0"
    by simp
  ultimately show ?thesis using nf a b c d by simp
qed

text \<open>
  Started with the bound 1 as its argument the program does not send nothing: the
  Feeder writes 2..35, stage 0 reads 2 first, and the eleven primes are printed.
\<close>

theorem empty_input_counterexample:
  "writes (fst (main xv6_world [''primes'', ''1''])) = [2..35] \<and>
   first_read (hd (snd (main xv6_world [''primes'', ''1'']))) = Some (Some 2) \<and>
   stdout_of (main xv6_world [''primes'', ''1'']) =
     [''prime 2'', ''prime 3'', ''prime 5'', ''prime 7'', ''prime 11'', ''prime 13'',
      ''prime 17'', ''prime 19'', ''prime 23'', ''prime 29'', ''prime 31'']"
  by code_simp

text \<open>
  C10.  \<open>main\<close> does not depend on its argument vector: two invocations in the same
  world give the same traces, hence the same output and exit status; the range offered
  to the sieve is always 2..35, and when nothing fails the output is the primes of that
  range and the exit status 0.
\<close>

theorem argv_ignored:
  "main w argv = main w argv' \<and>
   writes (feed_numbers None wfd) = [2..35] \<and>
   (no_failure w \<longrightarrow>
      stdout_of (main w argv) = map prime_line (filter is_prime [2..35]) \<and>
      exit_status (fst (main w argv)) = Some 0 \<and>
      writes (fst (main w argv)) = [2..35])"
proof -
  have "main w argv = main w argv'" by (simp add: main_def)
  moreover have "writes (feed_numbers None wfd) = [2..35]" by (rule feed_offer)
  moreover have "stdout_of (main w argv) = map prime_line (filter is_prime [2..35])"
    if "no_failure w"
    using main_no_failure(1) [OF that, of argv] by (simp only: sift_primes)
  ultimately show ?thesis
    using main_no_failure(2,3) [of w argv] by blast
qed

theorem argv_ignored_witness:
  "main xv6_world [''primes''] = main xv6_world [''primes'', ''100''] \<and>
   no_failure xv6_world \<and>
   exit_status (fst (main xv6_world [''primes''])) = Some 0 \<and>
   writes (fst (main xv6_world [''primes''])) = [2..35]"
proof -
  have nf: "no_failure xv6_world"
    by (simp add: no_failure_def xv6_world_def)
  from argv_ignored [of xv6_world "[''primes'']" "[''primes'', ''100'']" 4] nf
  show ?thesis by blast
qed

end
